theory Spec2Isabelle
  imports
    Complex_Main
    "HOL-Library.Word"
    "HOL-Library.Sublist"
    "HOL-Library.Multiset"
    "HOL-Library.Char_ord"
    "HOL-Library.List_Lexorder"
begin

unbundle bit_operations_syntax

section \<open>Strings and POSIX paths\<close>

text \<open>
  JavaScript strings are modelled as \<^typ>\<open>string\<close>. \<open>split_on c s\<close> is
  \<^verbatim>\<open>s.split(c)\<close> for a one-character separator (it never returns the empty array, so the second
  branch of the \<open>case\<close> below is never taken: lemma \<open>split_on_ne\<close>), and
  \<open>join_with sep xs\<close> is \<^verbatim>\<open>xs.join(sep)\<close>.
\<close>

fun split_on :: "char \<Rightarrow> string \<Rightarrow> string list" where
  "split_on c [] = [[]]"
| "split_on c (x # xs) =
     (if x = c then [] # split_on c xs
      else (case split_on c xs of
              s # ss \<Rightarrow> (x # s) # ss
            | [] \<Rightarrow> [[x]]))"

fun join_with :: "string \<Rightarrow> string list \<Rightarrow> string" where
  "join_with sep [] = []"
| "join_with sep [s] = s"
| "join_with sep (s # t # ss) = s @ sep @ join_with sep (t # ss)"

text \<open>
  Node's \<^verbatim>\<open>path\<close> module (POSIX flavour) is not part of the repository; it is modelled
  after its implementation. \<^verbatim>\<open>normalizeString\<close> walks the \<^verbatim>\<open>/\<close>-separated segments
  from left to right with a result \<open>res\<close>: an empty segment and \<^verbatim>\<open>.\<close> are skipped,
  \<^verbatim>\<open>..\<close> removes the last segment of \<open>res\<close> (unless there is none, or it is
  \<^verbatim>\<open>..\<close> itself, in which case \<^verbatim>\<open>..\<close> is kept for a relative path and dropped for
  an absolute one), any other segment is appended.
\<close>

definition normStep :: "bool \<Rightarrow> string list \<Rightarrow> string \<Rightarrow> string list" where
  "normStep allowAboveRoot res seg =
     (if seg = [] \<or> seg = ''.'' then res
      else if seg = ''..'' then
        (if res \<noteq> [] \<and> last res \<noteq> ''..'' then butlast res
         else if allowAboveRoot then res @ [''..''] else res)
      else res @ [seg])"

definition normalizeSegments :: "bool \<Rightarrow> string \<Rightarrow> string list" where
  "normalizeSegments allowAboveRoot p =
     foldl (normStep allowAboveRoot) [] (split_on CHR ''/'' p)"

definition normalizeString :: "string \<Rightarrow> bool \<Rightarrow> string" where
  "normalizeString p allowAboveRoot = join_with ''/'' (normalizeSegments allowAboveRoot p)"

definition isAbsolute :: "string \<Rightarrow> bool" where
  "isAbsolute p = (p \<noteq> [] \<and> hd p = CHR ''/'')"

definition normalizePath :: "string \<Rightarrow> string" where
  "normalizePath p =
     (if p = [] then ''.''
      else
        let trailingSeparator = (last p = CHR ''/'');
            q = normalizeString p (\<not> isAbsolute p)
        in if q = [] then
             (if isAbsolute p then ''/'' else if trailingSeparator then ''./'' else ''.'')
           else (if isAbsolute p then ''/'' else []) @ q
                  @ (if trailingSeparator then ''/'' else []))"

text \<open>\<^verbatim>\<open>path.join(...args)\<close>: the non-empty arguments joined by \<^verbatim>\<open>/\<close>, then normalized.\<close>

definition path_join :: "string list \<Rightarrow> string" where
  "path_join args =
     (let parts = filter (\<lambda>a. a \<noteq> []) args
      in if parts = [] then ''.'' else normalizePath (join_with ''/'' parts))"

text \<open>\<^verbatim>\<open>path.basename(p)\<close>: trailing slashes are ignored, then the part after the last slash.\<close>

definition basename :: "string \<Rightarrow> string" where
  "basename p =
     rev (takeWhile (\<lambda>c. c \<noteq> CHR ''/'') (dropWhile (\<lambda>c. c = CHR ''/'') (rev p)))"

section \<open>The file system as seen by the handlers\<close>

text \<open>
  A directory tree as \<^verbatim>\<open>fs.readdir(p, { withFileTypes: true })\<close> shows it: a directory
  lists its entries (name and node) in the platform's enumeration order; an
  \<open>UnreadableDirectory\<close> is an entry for which \<^verbatim>\<open>isDirectory()\<close> holds and whose own
  \<^verbatim>\<open>readdir\<close> throws; \<open>OtherNode\<close> is anything that is neither a directory nor a regular
  file (a symbolic link, a socket, ...).
\<close>

datatype fs_error = ENOENT | ENOTDIR | EACCES

datatype fsnode =
    RegularFile
  | Directory "(string \<times> fsnode) list"
  | UnreadableDirectory
  | OtherNode

text \<open>
  \<open>stats\<close> answers \<^verbatim>\<open>fs.stat\<close> (\<open>None\<close>: the call throws), \<open>files\<close> answers
  \<^verbatim>\<open>fs.readFile\<close> (\<open>None\<close>: the call throws), \<open>nodes\<close> gives the tree found at a path
  (\<open>None\<close>: there is nothing there). \<^verbatim>\<open>fs.access(p)\<close> succeeds exactly when \<open>p\<close> can
  be stat'ed. Every call the resolver and the two serving loaders make is recorded as an
  \<open>fs_op\<close>. Of the time stamp \<^verbatim>\<open>mtimeMs\<close> only its identity matters (it goes into the
  cache key), so a natural number stands for it.
\<close>

record file_stat =
  isFile :: bool
  mtimeMs :: nat

record fsys =
  stats :: "string \<rightharpoonup> file_stat"
  files :: "string \<rightharpoonup> string"
  nodes :: "string \<rightharpoonup> fsnode"

datatype fs_op =
    Access string
  | Stat string
  | ReadFile string
  | SharpToFile string string

definition access :: "fsys \<Rightarrow> string \<Rightarrow> bool" where
  "access fs p = (stats fs p \<noteq> None)"

section \<open>PathResolver: \<^verbatim>\<open>resolvePhotoPath\<close> (app/utils/photo-path.ts)\<close>

text \<open>
  The result \<^verbatim>\<open>null\<close> is \<open>None\<close>; the two object shapes of \<^verbatim>\<open>ResolveResult\<close> are the
  constructors \<open>Root\<close> and \<open>Entry\<close>.
\<close>

datatype resolve_result =
    Root (photoDirs: "string list")
  | Entry (fullPath: string) (baseDir: string) (relativePath: string)

text \<open>\<^verbatim>\<open>process.env.PHOTO_DIRS?.split(",") || []\<close>; the variable is unset (\<open>None\<close>) or a string.\<close>

definition configuredDirs :: "string option \<Rightarrow> string list" where
  "configuredDirs env = (case env of None \<Rightarrow> [] | Some v \<Rightarrow> split_on CHR '','' v)"

text \<open>\<^verbatim>\<open>urlPath.replace(/^\/+|\/+$/g, "")\<close>\<close>

definition trimSlashes :: "string \<Rightarrow> string" where
  "trimSlashes s =
     rev (dropWhile (\<lambda>c. c = CHR ''/'') (rev (dropWhile (\<lambda>c. c = CHR ''/'') s)))"

text \<open>The compatibility loop: probe \<open>dir/cleanUrl\<close> for each directory in order.\<close>

fun compatSearch :: "fsys \<Rightarrow> string \<Rightarrow> string list \<Rightarrow> resolve_result option \<times> fs_op list" where
  "compatSearch fs cleanUrl [] = (None, [])"
| "compatSearch fs cleanUrl (dir # dirs) =
     (let tryPath = path_join [dir, cleanUrl]
      in if access fs tryPath then (Some (Entry tryPath dir cleanUrl), [Access tryPath])
         else (case compatSearch fs cleanUrl dirs of
                 (r, ops) \<Rightarrow> (r, Access tryPath # ops)))"

definition resolveIO :: "string option \<Rightarrow> fsys \<Rightarrow> string \<Rightarrow> resolve_result option \<times> fs_op list" where
  "resolveIO env fs urlPath =
     (let photoDirs = configuredDirs env
      in if length photoDirs = 0 then (None, [])
         else
           let cleanUrl = trimSlashes urlPath
           in if cleanUrl = [] then (Some (Root photoDirs), [])
              else
                let parts = split_on CHR ''/'' cleanUrl;
                    firstSegment = hd parts;
                    matchedDir = find (\<lambda>dir. basename dir = firstSegment) photoDirs
                in if matchedDir \<noteq> None \<and> the matchedDir \<noteq> [] then
                     (let relativePath = join_with ''/'' (tl parts)
                      in (Some (Entry (path_join [the matchedDir, relativePath])
                                      (the matchedDir) relativePath), []))
                   else
                     (case compatSearch fs cleanUrl photoDirs of
                        (Some r, ops) \<Rightarrow> (Some r, ops)
                      | (None, ops) \<Rightarrow>
                          (Some (Entry (path_join [hd photoDirs, cleanUrl])
                                       (hd photoDirs) cleanUrl), ops)))"

definition resolvePhotoPath :: "string option \<Rightarrow> fsys \<Rightarrow> string \<Rightarrow> resolve_result option" where
  "resolvePhotoPath env fs urlPath = fst (resolveIO env fs urlPath)"

section \<open>SlideshowSequencer: the seeded shuffle (routes/slideshow.tsx)\<close>

subsection \<open>JavaScript numbers\<close>

text \<open>
  A JavaScript number is an IEEE-754 double. The shuffle only ever holds non-negative
  integers and quotients of such by \<open>2 ^ 32\<close> in one, so the single place where a double
  differs from the integer it stands for is a result with more than 53 significant bits:
  \<open>roundDouble n\<close> is the double nearest to the integer \<open>n\<close> (ties to the even
  significand), which is what \<^verbatim>\<open>+\<close> and \<^verbatim>\<open>*\<close> return for the exact result \<open>n\<close>.
\<close>

fun bitLength :: "nat \<Rightarrow> nat" where
  "bitLength n = (if n = 0 then 0 else Suc (bitLength (n div 2)))"

declare bitLength.simps [simp del]

definition roundDouble :: "nat \<Rightarrow> nat" where
  "roundDouble n =
     (if n < 2 ^ 53 then n
      else
        let k = bitLength n - 53;
            q = n div 2 ^ k;
            r = n mod 2 ^ k;
            half = 2 ^ (k - 1)
        in if half < r \<or> (r = half \<and> odd q) then (q + 1) * 2 ^ k else q * 2 ^ k)"

subsection \<open>\<^verbatim>\<open>mulberry32\<close>\<close>

text \<open>
  The closure returned by \<^verbatim>\<open>mulberry32(a)\<close> keeps the number \<open>a\<close>. A call first runs
  \<^verbatim>\<open>a += 0x6d2b79f5\<close> on the double (\<open>advance\<close>; the source does not truncate \<open>a\<close> to
  32 bits), then mixes the low 32 bits of the new \<open>a\<close> with \<^verbatim>\<open>Math.imul\<close>, \<^verbatim>\<open>^\<close>,
  \<^verbatim>\<open>|\<close> and \<^verbatim>\<open>>>>\<close>, all of which work on 32-bit words (\<open>temper\<close>), and returns the
  resulting unsigned word divided by \<open>4294967296\<close> (\<open>draw\<close>).
\<close>

type_synonym u32 = "32 word"

definition advance :: "nat \<Rightarrow> nat" where
  "advance a = roundDouble (a + 1831565813)"

definition temper :: "nat \<Rightarrow> u32" where
  "temper a =
     (let t0 = (word_of_nat a :: u32);
          t1 = (t0 XOR drop_bit 15 t0) * (t0 OR 1);
          t2 = t1 XOR (t1 + (t1 XOR drop_bit 7 t1) * (t1 OR 61))
      in t2 XOR drop_bit 14 t2)"

definition mulberry32 :: "nat \<Rightarrow> nat \<times> u32" where
  "mulberry32 a = (advance a, temper (advance a))"

definition draw :: "u32 \<Rightarrow> rat" where
  "draw w = of_nat (unat w) / 4294967296"

text \<open>
  \<^verbatim>\<open>Math.floor(rand() * (i + 1))\<close> for the draw with numerator \<open>w\<close> and \<open>m = i + 1\<close>:
  the exact product is \<open>unat w * m / 2 ^ 32\<close>, and dividing by a power of two does not
  change which significand is nearest.
\<close>

definition floorMul :: "u32 \<Rightarrow> nat \<Rightarrow> nat" where
  "floorMul w m = roundDouble (unat w * m) div 4294967296"

subsection \<open>The array and the loop\<close>

text \<open>
  A JavaScript array: reading past the end yields \<^verbatim>\<open>undefined\<close> (\<open>None\<close>), writing past
  the end extends the array with holes. \<open>swapElements\<close> is the destructuring assignment
  \<^verbatim>\<open>[images[i], images[j]] = [images[j], images[i]]\<close>.
\<close>

definition arrayGet :: "'a option list \<Rightarrow> nat \<Rightarrow> 'a option" where
  "arrayGet xs i = (if i < length xs then xs ! i else None)"

definition arraySet :: "'a option list \<Rightarrow> nat \<Rightarrow> 'a option \<Rightarrow> 'a option list" where
  "arraySet xs i v =
     (if i < length xs then xs[i := v]
      else xs @ replicate (i - length xs) None @ [v])"

definition swapElements :: "'a option list \<Rightarrow> nat \<Rightarrow> nat \<Rightarrow> 'a option list" where
  "swapElements images i j =
     arraySet (arraySet images i (arrayGet images j)) j (arrayGet images i)"

text \<open>
  \<^verbatim>\<open>for (let i = images.length - 1; i > 0; i--)\<close> with the generator state \<open>a\<close> threaded
  through. For the empty array the source starts at \<open>-1\<close> and the model at \<open>0\<close>; the
  loop body runs for neither.
\<close>

function shuffleLoop :: "nat \<Rightarrow> 'a option list \<Rightarrow> nat \<Rightarrow> 'a option list" where
  "shuffleLoop a images i =
     (if 0 < i then
        shuffleLoop (fst (mulberry32 a))
          (swapElements images i (floorMul (snd (mulberry32 a)) (i + 1))) (i - 1)
      else images)"
  by pat_completeness auto
termination
  by (relation "measure (\<lambda>(a, images, i). i)") auto

declare shuffleLoop.simps [simp del]

text \<open>\<^verbatim>\<open>const rand = mulberry32(seed >>> 0)\<close> followed by the loop.\<close>

definition seededShuffle :: "u32 \<Rightarrow> 'a option list \<Rightarrow> 'a option list" where
  "seededShuffle seed images = shuffleLoop (unat seed) images (length images - 1)"

text \<open>The pairs \<open>(i, j)\<close> of indices the loop reads and writes, in order.\<close>

function swapTrace :: "nat \<Rightarrow> nat \<Rightarrow> (nat \<times> nat) list" where
  "swapTrace a i =
     (if 0 < i then
        (i, floorMul (snd (mulberry32 a)) (i + 1)) # swapTrace (fst (mulberry32 a)) (i - 1)
      else [])"
  by pat_completeness auto
termination
  by (relation "measure (\<lambda>(a, i). i)") auto

declare swapTrace.simps [simp del]

subsection \<open>The algorithm as the specification words it\<close>

text \<open>
  The generator is seeded solely from the 32-bit seed: its \<open>k\<close>-th draw (counting from
  \<open>0\<close>) is a function of the seed and \<open>k\<close>. The Fisher-Yates shuffle visits the indices
  from the last down to the second, uses one draw per index and swaps the element at the
  index \<open>i\<close> with the one at the floor of \<open>draw * (i + 1)\<close>. The specification names a
  uniform value in \<open>[0, 1)\<close> and the floor of a product: \<open>floorDraw\<close> is that floor, of
  the exact product of the rational draw and the number \<open>m\<close>.
\<close>

definition nthDraw :: "u32 \<Rightarrow> nat \<Rightarrow> u32" where
  "nthDraw seed k = temper ((advance ^^ Suc k) (unat seed))"

definition floorDraw :: "u32 \<Rightarrow> nat \<Rightarrow> nat" where
  "floorDraw w m = nat \<lfloor>draw w * of_nat m\<rfloor>"

definition fisherYatesStep :: "u32 \<Rightarrow> nat \<times> nat \<Rightarrow> 'a list \<Rightarrow> 'a list" where
  "fisherYatesStep seed ki xs =
     (let i = snd ki; j = floorDraw (nthDraw seed (fst ki)) (i + 1)
      in xs[i := xs ! j, j := xs ! i])"


subsection \<open>A large sorted listing\<close>




section \<open>CollectionScanner: \<^verbatim>\<open>getAllImages\<close> (routes/slideshow.tsx)\<close>

text \<open>\<^verbatim>\<open>entry.isDirectory()\<close> and \<^verbatim>\<open>entry.isFile()\<close> of a directory entry.\<close>

fun entryIsDirectory :: "fsnode \<Rightarrow> bool" where
  "entryIsDirectory (Directory es) = True"
| "entryIsDirectory UnreadableDirectory = True"
| "entryIsDirectory RegularFile = False"
| "entryIsDirectory OtherNode = False"

fun entryIsFile :: "fsnode \<Rightarrow> bool" where
  "entryIsFile RegularFile = True"
| "entryIsFile (Directory es) = False"
| "entryIsFile UnreadableDirectory = False"
| "entryIsFile OtherNode = False"

text \<open>
  \<^verbatim>\<open>/\.(jpg|jpeg|png|gif|webp)$/i.test(name)\<close>: the name ends with a dot and one of the
  extensions, letters compared without regard to (ASCII) case.
\<close>

definition lowerChar :: "char \<Rightarrow> char" where
  "lowerChar c =
     (case map_of (zip ''ABCDEFGHIJKLMNOPQRSTUVWXYZ'' ''abcdefghijklmnopqrstuvwxyz'') c of
        Some l \<Rightarrow> l
      | None \<Rightarrow> c)"

definition endsWith :: "string \<Rightarrow> string \<Rightarrow> bool" where
  "endsWith s suf = (length suf \<le> length s \<and> drop (length s - length suf) s = suf)"

definition imageExtensions :: "string list" where
  "imageExtensions = [''jpg'', ''jpeg'', ''png'', ''gif'', ''webp'']"

definition isImageName :: "string \<Rightarrow> bool" where
  "isImageName name =
     list_ex (\<lambda>ext. endsWith (map lowerChar name) (CHR ''.'' # ext)) imageExtensions"

text \<open>
  \<^verbatim>\<open>scanDir(currentPath, relativePath)\<close>: the node stands for the directory at
  \<open>currentPath\<close>, \<open>relativePath'\<close> is the parameter \<^verbatim>\<open>relativePath\<close>, and \<open>images\<close> is the array the closure pushes to. A throwing
  \<^verbatim>\<open>readdir\<close> is \<open>Inl\<close>; the source has no handler in \<^verbatim>\<open>scanDir\<close>, so the error of a
  nested call ends the loop of every enclosing call. \<open>scanEntries\<close> is the \<^verbatim>\<open>for\<close> loop
  over the entries.
\<close>

fun scanDir :: "fsnode \<Rightarrow> string \<Rightarrow> string list \<Rightarrow> fs_error + string list"
  and scanEntries :: "(string \<times> fsnode) list \<Rightarrow> string \<Rightarrow> string list \<Rightarrow> fs_error + string list"
where
  "scanDir (Directory es) relativePath' images = scanEntries es relativePath' images"
| "scanDir UnreadableDirectory relativePath' images = Inl EACCES"
| "scanDir RegularFile relativePath' images = Inl ENOTDIR"
| "scanDir OtherNode relativePath' images = Inl ENOTDIR"
| "scanEntries [] relativePath' images = Inr images"
| "scanEntries ((name, node) # es) relativePath' images =
     (let relPath = (if relativePath' \<noteq> [] then path_join [relativePath', name] else name)
      in if entryIsDirectory node then
           (case scanDir node relPath images of
              Inl e \<Rightarrow> Inl e
            | Inr images' \<Rightarrow> scanEntries es relativePath' images')
         else if entryIsFile node \<and> isImageName name then
           scanEntries es relativePath' (images @ [relPath])
         else scanEntries es relativePath' images)"

text \<open>\<^verbatim>\<open>images.sort()\<close> orders strings by their code units.\<close>

definition getAllImages :: "fsnode \<Rightarrow> fs_error + string list" where
  "getAllImages dir =
     (case scanDir dir [] [] of
        Inl e \<Rightarrow> Inl e
      | Inr images \<Rightarrow> Inr (sort images))"

text \<open>\<^verbatim>\<open>getAllImages(fullDirPath)\<close> on the file system: nothing at the path is ENOENT.\<close>

definition getAllImagesAt :: "fsys \<Rightarrow> string \<Rightarrow> fs_error + string list" where
  "getAllImagesAt fs dirPath =
     (case nodes fs dirPath of
        None \<Rightarrow> Inl ENOENT
      | Some dir \<Rightarrow> getAllImages dir)"

subsection \<open>The slideshow loader\<close>

text \<open>
  The loader's result is the data object (\<^verbatim>\<open>images\<close>, \<^verbatim>\<open>currentPath\<close>, \<^verbatim>\<open>baseDir\<close>,
  \<^verbatim>\<open>random\<close>, in this order) or a redirect. The query string is given by
  \<open>randomParam\<close> and \<open>seedParam\<close> (\<^verbatim>\<open>searchParams.get\<close>, \<open>None\<close> for \<^verbatim>\<open>null\<close>);
  \<open>toUint32\<close> stands for \<^verbatim>\<open>(Number(seedParam) || 0) >>> 0\<close> and \<open>freshSeedUrl\<close> for the URL
  with a seed from \<^verbatim>\<open>Math.random\<close> added.
\<close>

datatype slideshow_result =
    SlideshowData "string option list" string string bool
  | Redirect string

record slideshow_query =
  splat :: "string option"
  randomParam :: "string option"
  seedParam :: "string option"
  toUint32 :: "string \<Rightarrow> u32"
  freshSeedUrl :: string

text \<open>\<^verbatim>\<open>.replace(/\/$/, "")\<close>: one trailing slash is removed.\<close>

definition dropTrailingSlash :: "string \<Rightarrow> string" where
  "dropTrailingSlash s = (if s \<noteq> [] \<and> last s = CHR ''/'' then butlast s else s)"

definition slideshowLoader :: "string option \<Rightarrow> fsys \<Rightarrow> slideshow_query \<Rightarrow> slideshow_result" where
  "slideshowLoader env fs q =
     (let dirPath = dropTrailingSlash (case splat q of None \<Rightarrow> [] | Some p \<Rightarrow> p);
          resolved = resolvePhotoPath env fs dirPath;
          fullDirPath = (case resolved of
                           Some (Entry fp bd rp) \<Rightarrow> fp
                         | Some (Root dirs) \<Rightarrow> (if 0 < length dirs then hd dirs else [])
                         | None \<Rightarrow> []);
          baseDir' = (case resolved of
                        Some (Entry fp bd rp) \<Rightarrow> bd
                      | Some (Root dirs) \<Rightarrow> (if 0 < length dirs then hd dirs else [])
                      | None \<Rightarrow> [])
      in if fullDirPath = [] then SlideshowData [] dirPath [] False
         else
           (case getAllImagesAt fs fullDirPath of
              Inl e \<Rightarrow> SlideshowData [] dirPath baseDir' False
            | Inr images' \<Rightarrow>
                let rnd = (randomParam q = Some ''true'');
                    noSeed = (seedParam q = None \<or> seedParam q = Some [])
                in if rnd \<and> noSeed then Redirect (freshSeedUrl q)
                   else if rnd then
                     SlideshowData
                       (seededShuffle (toUint32 q (the (seedParam q))) (map Some images'))
                       dirPath baseDir' rnd
                   else SlideshowData (map Some images') dirPath baseDir' rnd))"

subsection \<open>The listing as the specification words it\<close>

text \<open>
  Every regular file of the tree, as the list of names leading to it from the scan root
  in depth-first order; the listing is the paths of those whose name has an allowed
  extension, joined by \<^verbatim>\<open>/\<close>, in lexicographic order.
\<close>

fun filePaths :: "fsnode \<Rightarrow> string list list"
  and entryPaths :: "(string \<times> fsnode) list \<Rightarrow> string list list"
where
  "filePaths (Directory es) = entryPaths es"
| "filePaths RegularFile = []"
| "filePaths UnreadableDirectory = []"
| "filePaths OtherNode = []"
| "entryPaths [] = []"
| "entryPaths ((name, node) # es) =
     (if entryIsFile node then [[name]] else map (\<lambda>p. name # p) (filePaths node))
       @ entryPaths es"

definition specListing :: "fsnode \<Rightarrow> string list" where
  "specListing dir =
     sort (map (join_with ''/'') (filter (\<lambda>p. isImageName (last p)) (filePaths dir)))"

text \<open>
  The trees the scan can meet: every name is a file name (not empty, no \<^verbatim>\<open>/\<close>, neither
  \<^verbatim>\<open>.\<close> nor \<^verbatim>\<open>..\<close>), and \<open>allReadable\<close>: no directory of the tree refuses \<^verbatim>\<open>readdir\<close>.
\<close>

definition validName :: "string \<Rightarrow> bool" where
  "validName name =
     (name \<noteq> [] \<and> CHR ''/'' \<notin> set name \<and> name \<noteq> ''.'' \<and> name \<noteq> ''..'')"

fun wellNamed :: "fsnode \<Rightarrow> bool"
  and wellNamedEntries :: "(string \<times> fsnode) list \<Rightarrow> bool"
where
  "wellNamed (Directory es) = wellNamedEntries es"
| "wellNamed RegularFile = True"
| "wellNamed UnreadableDirectory = True"
| "wellNamed OtherNode = True"
| "wellNamedEntries [] = True"
| "wellNamedEntries ((name, node) # es) =
     (validName name \<and> wellNamed node \<and> wellNamedEntries es)"

fun allReadable :: "fsnode \<Rightarrow> bool"
  and allReadableEntries :: "(string \<times> fsnode) list \<Rightarrow> bool"
where
  "allReadable (Directory es) = allReadableEntries es"
| "allReadable RegularFile = True"
| "allReadable UnreadableDirectory = False"
| "allReadable OtherNode = True"
| "allReadableEntries [] = True"
| "allReadableEntries ((name, node) # es) = (allReadable node \<and> allReadableEntries es)"

text \<open>\<open>isDirectoryNode\<close>: the scan root itself is a directory that can be read.\<close>

fun isDirectoryNode :: "fsnode \<Rightarrow> bool" where
  "isDirectoryNode (Directory es) = True"
| "isDirectoryNode RegularFile = False"
| "isDirectoryNode UnreadableDirectory = False"
| "isDirectoryNode OtherNode = False"

section \<open>Authorization (app/utils/auth.server.ts)\<close>

text \<open>
  Of a request only the \<^verbatim>\<open>cookie\<close> header matters. \<^verbatim>\<open>authCookie.parse\<close> belongs to the
  router library and is a parameter: \<open>None\<close> stands for a throwing call and for any value
  that is not a string.
\<close>

record request =
  cookieHeader :: "string option"

definition isAuthenticated :: "(string \<Rightarrow> string option) \<Rightarrow> request \<Rightarrow> bool" where
  "isAuthenticated parse req =
     (case cookieHeader req of
        None \<Rightarrow> False
      | Some h \<Rightarrow> if h = [] then False else parse h = Some ''1'')"

section \<open>The serving entry points (routes/api.photos.tsx, routes/api.thumbnails.tsx)\<close>

text \<open>
  What a loader finds around it: the environment variable, the global
  \<^verbatim>\<open>__RR_REQUEST\<close> (\<open>Some\<close> when it is set to a \<^verbatim>\<open>Request\<close> instance), the cookie parser,
  the cache directory, the MD5 digest of a path and a modification time, and \<^verbatim>\<open>sharp\<close>
  (\<open>None\<close>: the pipeline throws; otherwise the encoded thumbnail it writes).
\<close>

record platform =
  PHOTO_DIRS :: "string option"
  RR_REQUEST :: "request option"
  authCookieParse :: "string \<Rightarrow> string option"
  CACHE_DIR :: string
  md5Hex :: "string \<Rightarrow> nat \<Rightarrow> string"
  sharpThumbnail :: "string \<Rightarrow> string option"

text \<open>
  The loader's argument carries the request and the route parameters; both loaders
  destructure \<^verbatim>\<open>params\<close> only.
\<close>

record loader_args =
  argsRequest :: request
  starParam :: "string option"

datatype response = Response nat string "(string \<times> string) list"

text \<open>\<^verbatim>\<open>path.extname\<close> and the table of \<^verbatim>\<open>getMimeType\<close>.\<close>

definition extname :: "string \<Rightarrow> string" where
  "extname p =
     (let b = basename p;
          ext = CHR ''.'' # rev (takeWhile (\<lambda>c. c \<noteq> CHR ''.'') (rev b));
          stem = rev (tl (dropWhile (\<lambda>c. c \<noteq> CHR ''.'') (rev b)))
      in if CHR ''.'' \<notin> set b \<or> stem = [] \<or> b = ''..'' then [] else ext)"

definition getMimeType :: "string \<Rightarrow> string" where
  "getMimeType ext =
     (case map_of
             [(''.jpg'', ''image/jpeg''), (''.jpeg'', ''image/jpeg''), (''.png'', ''image/png''),
              (''.gif'', ''image/gif''), (''.webp'', ''image/webp'')] ext of
        Some m \<Rightarrow> m
      | None \<Rightarrow> ''application/octet-stream'')"

definition cacheHeaders :: "string \<Rightarrow> (string \<times> string) list" where
  "cacheHeaders contentType =
     [(''Content-Type'', contentType), (''Cache-Control'', ''public, max-age=31536000'')]"

text \<open>The body of the photo loader after the authorization check.\<close>

definition servePhoto :: "platform \<Rightarrow> fsys \<Rightarrow> loader_args \<Rightarrow> response \<times> fs_op list" where
  "servePhoto pf fs args =
     (let filePath = (case starParam args of None \<Rightarrow> [] | Some p \<Rightarrow> p);
          r = resolveIO (PHOTO_DIRS pf) fs filePath;
          notFound = Response 404 ''File not found'' []
      in case fst r of
           Some (Entry path bd rp) \<Rightarrow>
             (case stats fs path of
                None \<Rightarrow> (notFound, snd r @ [Stat path])
              | Some st \<Rightarrow>
                  if isFile st then
                    (case files fs path of
                       None \<Rightarrow> (notFound, snd r @ [Stat path, ReadFile path])
                     | Some fileContent \<Rightarrow>
                         (Response 200 fileContent
                            (cacheHeaders (getMimeType (map lowerChar (extname path)))),
                          snd r @ [Stat path, ReadFile path]))
                  else (notFound, snd r @ [Stat path]))
         | Some (Root dirs) \<Rightarrow> (notFound, snd r)
         | None \<Rightarrow> (notFound, snd r))"

definition photosLoader :: "platform \<Rightarrow> fsys \<Rightarrow> loader_args \<Rightarrow> response \<times> fs_op list" where
  "photosLoader pf fs args =
     (case RR_REQUEST pf of
        Some req \<Rightarrow>
          if \<not> isAuthenticated (authCookieParse pf) req
          then (Response 401 ''Unauthorized'' [], [])
          else servePhoto pf fs args
      | None \<Rightarrow> servePhoto pf fs args)"

text \<open>
  The body of the thumbnail loader after the authorization check. The \<^verbatim>\<open>try\<close> block
  starts at \<^verbatim>\<open>fs.stat\<close>, and its \<^verbatim>\<open>catch\<close> answers every error with the status 500.
  The third component is the file system afterwards (a generated thumbnail is stored).
\<close>

definition serveThumbnail ::
  "platform \<Rightarrow> fsys \<Rightarrow> loader_args \<Rightarrow> response \<times> fs_op list \<times> fsys" where
  "serveThumbnail pf fs args =
     (let filePath = (case starParam args of None \<Rightarrow> [] | Some p \<Rightarrow> p);
          r = resolveIO (PHOTO_DIRS pf) fs filePath;
          failed = Response 500 ''Error generating thumbnail'' []
      in case fst r of
           None \<Rightarrow> (Response 404 ''Not found'' [], snd r, fs)
         | Some (Root dirs) \<Rightarrow> (Response 404 ''Not found'' [], snd r, fs)
         | Some (Entry path bd rp) \<Rightarrow>
             (case stats fs path of
                None \<Rightarrow> (failed, snd r @ [Stat path], fs)
              | Some st \<Rightarrow>
                  if \<not> isFile st then (Response 404 ''Not a file'' [], snd r @ [Stat path], fs)
                  else
                    let cachePath = path_join [CACHE_DIR pf, md5Hex pf path (mtimeMs st) @ ''.webp'']
                    in case files fs cachePath of
                         Some cachedImage \<Rightarrow>
                           (Response 200 cachedImage (cacheHeaders ''image/webp''),
                            snd r @ [Stat path, ReadFile cachePath], fs)
                       | None \<Rightarrow>
                           (case sharpThumbnail pf path of
                              None \<Rightarrow>
                                (failed,
                                 snd r @ [Stat path, ReadFile cachePath, SharpToFile path cachePath],
                                 fs)
                            | Some newThumbnail \<Rightarrow>
                                (Response 200 newThumbnail (cacheHeaders ''image/webp''),
                                 snd r @ [Stat path, ReadFile cachePath,
                                          SharpToFile path cachePath, ReadFile cachePath],
                                 fs\<lparr>files := (files fs)(cachePath \<mapsto> newThumbnail)\<rparr>))))"

definition thumbnailsLoader ::
  "platform \<Rightarrow> fsys \<Rightarrow> loader_args \<Rightarrow> response \<times> fs_op list \<times> fsys" where
  "thumbnailsLoader pf fs args =
     (case RR_REQUEST pf of
        Some req \<Rightarrow>
          if \<not> isAuthenticated (authCookieParse pf) req
          then (Response 401 ''Unauthorized'' [], [], fs)
          else serveThumbnail pf fs args
      | None \<Rightarrow> serveThumbnail pf fs args)"

section \<open>Containment of a path in a root\<close>

text \<open>
  The security policy of the specification: the physical path, once canonicalized, lies
  within the library's root. Canonicalization is \<^verbatim>\<open>path.normalize\<close>; a path lies within
  a root when both are absolute or both relative and the segments of the root are the
  first segments of the path.
\<close>

definition pathSegments :: "string \<Rightarrow> string list" where
  "pathSegments p = normalizeSegments (\<not> isAbsolute p) p"

definition withinRoot :: "string \<Rightarrow> string \<Rightarrow> bool" where
  "withinRoot rootDir p =
     (isAbsolute (normalizePath p) = isAbsolute (normalizePath rootDir)
      \<and> prefix (pathSegments (normalizePath rootDir)) (pathSegments (normalizePath p)))"

text \<open>
  The shape of a normalized segment list: a block of \<^verbatim>\<open>..\<close> (only when the path is
  relative) followed by plain names.
\<close>

definition normalForm :: "bool \<Rightarrow> string list \<Rightarrow> bool" where
  "normalForm b S =
     (\<exists>k T. S = replicate k ''..'' @ T \<and> (\<forall>s\<in>set T. validName s) \<and> (\<not> b \<longrightarrow> k = 0))"

section \<open>Facts about the string helpers\<close>

lemma split_on_ne: "split_on c s \<noteq> []"
  by (induction s) (auto split: list.splits)

lemma hd_split_on_ne: "s \<noteq> [] \<Longrightarrow> hd s \<noteq> c \<Longrightarrow> hd (split_on c s) \<noteq> []"
  by (cases s) (auto split: list.splits)

lemma rev_dropWhile_rev_prefix: "\<exists>zs. t = rev (dropWhile P (rev t)) @ zs"
  by (metis takeWhile_dropWhile_id rev_append rev_rev_ident)

lemma trimSlashes_hd:
  assumes "trimSlashes s \<noteq> []"
  shows "hd (trimSlashes s) \<noteq> CHR ''/''"
proof -
  define t where "t = dropWhile (\<lambda>c. c = CHR ''/'') s"
  obtain zs where t: "t = trimSlashes s @ zs"
    using rev_dropWhile_rev_prefix [of t "\<lambda>c. c = CHR ''/''"]
    by (auto simp: trimSlashes_def t_def)
  with assms have "t \<noteq> []" and hd: "hd t = hd (trimSlashes s)" by auto
  from \<open>t \<noteq> []\<close> have "hd t \<noteq> CHR ''/''"
    unfolding t_def using hd_dropWhile [of "\<lambda>c. c = CHR ''/''" s] by blast
  with hd show ?thesis by simp
qed

lemma basename_Nil: "basename [] = []"
  by (simp add: basename_def)

lemma find_Some_props: "find P xs = Some x \<Longrightarrow> x \<in> set xs \<and> P x"
  by (induction xs) (auto split: if_splits)

lemma find_exists: "\<exists>x\<in>set xs. P x \<Longrightarrow> \<exists>y. find P xs = Some y"
  by (induction xs) auto

text \<open>The definitions unfolded to evaluate the resolver on a concrete input.\<close>

lemmas resolve_eval =
  resolvePhotoPath_def resolveIO_def configuredDirs_def trimSlashes_def basename_def Let_def
  path_join_def normalizePath_def normalizeString_def normalizeSegments_def normStep_def
  isAbsolute_def access_def

section \<open>PathResolver: selection of the library\<close>

text \<open>
  The resolver answers \<^verbatim>\<open>null\<close> exactly when \<^verbatim>\<open>PHOTO_DIRS\<close> is unset: any string
  value, the empty one included, splits into at least one directory.
\<close>

lemma resolve_null_iff: "resolvePhotoPath env fs urlPath = None \<longleftrightarrow> env = None"
proof (cases env)
  case None
  then show ?thesis by (simp add: resolvePhotoPath_def resolveIO_def configuredDirs_def)
next
  case (Some v)
  then have "configuredDirs env \<noteq> []" by (simp add: configuredDirs_def split_on_ne)
  then have "resolvePhotoPath env fs urlPath \<noteq> None"
    by (auto simp: resolvePhotoPath_def resolveIO_def Let_def split: prod.splits option.splits)
  with Some show ?thesis by simp
qed

text \<open>
  Claim C6. The resolver should answer Unavailable for an empty or unset configuration.
  With \<^verbatim>\<open>PHOTO_DIRS\<close> set to the empty string, \<^verbatim>\<open>"".split(",")\<close> is \<^verbatim>\<open>[""]\<close>, one
  library whose root is the empty string: whatever the file system holds, the request
  \<^verbatim>\<open>a.jpg\<close> resolves to the entry \<^verbatim>\<open>a.jpg\<close> under that root instead of Unavailable.
\<close>

theorem resolve_empty_string_config:
  "resolvePhotoPath (Some []) fs ''a.jpg'' = Some (Entry ''a.jpg'' [] ''a.jpg'')"
  by (simp add: resolvePhotoPath_def resolveIO_def configuredDirs_def trimSlashes_def
      basename_def Let_def path_join_def normalizePath_def normalizeString_def
      normalizeSegments_def normStep_def isAbsolute_def)

text \<open>
  Claim C7. When the trimmed logical path is not empty and its first segment equals the
  alias (base name) of some configured library, the resolver selects the first library
  with exactly that alias, the remaining segments joined by \<^verbatim>\<open>/\<close> form the relative
  path, the physical path is \<^verbatim>\<open>path.join\<close> of the library's root and the relative path,
  and no file-system probe is made.
\<close>

theorem resolve_alias_match:
  assumes nonempty: "trimSlashes urlPath \<noteq> []"
    and al: "\<exists>d\<in>set (configuredDirs env).
                  basename d = hd (split_on CHR ''/'' (trimSlashes urlPath))"
  shows "\<exists>d. find (\<lambda>dir. basename dir = hd (split_on CHR ''/'' (trimSlashes urlPath)))
                   (configuredDirs env) = Some d
            \<and> d \<in> set (configuredDirs env)
            \<and> basename d = hd (split_on CHR ''/'' (trimSlashes urlPath))
            \<and> resolveIO env fs urlPath =
                (Some (Entry (path_join [d, join_with ''/''
                                (tl (split_on CHR ''/'' (trimSlashes urlPath)))])
                             d
                             (join_with ''/''
                                (tl (split_on CHR ''/'' (trimSlashes urlPath))))), [])"
proof -
  let ?first = "hd (split_on CHR ''/'' (trimSlashes urlPath))"
  let ?rel = "join_with ''/'' (tl (split_on CHR ''/'' (trimSlashes urlPath)))"
  from al obtain d
    where d: "find (\<lambda>dir. basename dir = ?first) (configuredDirs env) = Some d"
    using find_exists [of "configuredDirs env" "\<lambda>dir. basename dir = ?first"] by blast
  then have mem: "d \<in> set (configuredDirs env)" and base: "basename d = ?first"
    using find_Some_props [OF d] by auto
  have "?first \<noteq> []"
    using hd_split_on_ne [OF nonempty trimSlashes_hd [OF nonempty]] .
  with base have "d \<noteq> []" using basename_Nil by auto
  from mem have "configuredDirs env \<noteq> []" by auto
  with nonempty d \<open>d \<noteq> []\<close>
  have "resolveIO env fs urlPath = (Some (Entry (path_join [d, ?rel]) d ?rel), [])"
    by (simp add: resolveIO_def Let_def)
  with d mem base show ?thesis by blast
qed

theorem resolve_alias_match_witness:
  "resolveIO (Some ''/data/photos,/mnt/pics'') \<lparr>stats = Map.empty, files = Map.empty, nodes = Map.empty\<rparr>
       ''/pics/2020/a.jpg''
     = (Some (Entry ''/mnt/pics/2020/a.jpg'' ''/mnt/pics'' ''2020/a.jpg''), [])"
proof -
  have cfg: "configuredDirs (Some ''/data/photos,/mnt/pics'') = [''/data/photos'', ''/mnt/pics'']"
    by (simp add: configuredDirs_def)
  have tr: "trimSlashes ''/pics/2020/a.jpg'' = ''pics/2020/a.jpg''"
    by (simp add: trimSlashes_def)
  have h1: "trimSlashes ''/pics/2020/a.jpg'' \<noteq> []" by (simp add: tr)
  have h2: "\<exists>d\<in>set (configuredDirs (Some ''/data/photos,/mnt/pics'')).
               basename d = hd (split_on CHR ''/'' (trimSlashes ''/pics/2020/a.jpg''))"
    by (simp add: cfg tr basename_def)
  from resolve_alias_match [OF h1 h2, of "\<lparr>stats = Map.empty, files = Map.empty, nodes = Map.empty\<rparr>"]
  show ?thesis
    by (simp add: cfg tr basename_def path_join_def normalizePath_def normalizeString_def
        normalizeSegments_def normStep_def isAbsolute_def)
qed

section \<open>SlideshowSequencer: bounds of the generator and of the swap index\<close>

lemma bitLength_upper: "n < 2 ^ bitLength n"
proof (induction n rule: bitLength.induct)
  case (1 n)
  show ?case
  proof (cases "n = 0")
    case True
    then show ?thesis by (simp add: bitLength.simps)
  next
    case False
    with 1 have "n div 2 < 2 ^ bitLength (n div 2)" by simp
    then have "n < 2 * 2 ^ bitLength (n div 2)" by linarith
    with False show ?thesis by (simp add: bitLength.simps [of n])
  qed
qed

lemma bitLength_lower: "n \<noteq> 0 \<Longrightarrow> 2 ^ (bitLength n - 1) \<le> n"
proof (induction n rule: bitLength.induct)
  case (1 n)
  show ?case
  proof (cases "n div 2 = 0")
    case True
    with 1(2) have "n = 1" by linarith
    then show ?thesis by (simp add: bitLength.simps [of "Suc 0"] bitLength.simps [of 0])
  next
    case False
    with 1 have "2 ^ (bitLength (n div 2) - 1) \<le> n div 2" by simp
    moreover from False have "bitLength (n div 2) \<noteq> 0"
      by (simp add: bitLength.simps [of "n div 2"])
    ultimately have "2 ^ bitLength (n div 2) \<le> 2 * (n div 2)"
      by (cases "bitLength (n div 2)") auto
    then have "2 ^ bitLength (n div 2) \<le> n" by linarith
    with 1(2) show ?thesis by (simp add: bitLength.simps [of n])
  qed
qed

lemma roundDouble_error: "roundDouble n * 2 ^ 53 \<le> n * (2 ^ 53 + 1)"
proof (cases "n < 2 ^ 53")
  case True
  then show ?thesis by (simp add: roundDouble_def)
next
  case False
  define k where "k = bitLength n - 53"
  define q where "q = n div 2 ^ k"
  define r where "r = n mod 2 ^ k"
  from False have n0: "n \<noteq> 0" by auto
  have "(2::nat) ^ 53 < 2 ^ bitLength n"
    using False bitLength_upper [of n] by linarith
  have bl: "53 < bitLength n"
  proof (rule ccontr)
    assume "\<not> 53 < bitLength n"
    then have "bitLength n \<le> 53" by simp
    then have "(2::nat) ^ bitLength n \<le> 2 ^ 53" by (rule power_increasing) simp
    with \<open>(2::nat) ^ 53 < 2 ^ bitLength n\<close> show False by linarith
  qed
  then have k1: "1 \<le> k" and kk: "bitLength n - 1 = k + 52" by (auto simp: k_def)
  have low: "2 ^ (k + 52) \<le> n" using bitLength_lower [OF n0] kk by simp
  have n_eq: "n = q * 2 ^ k + r" unfolding q_def r_def by (rule div_mult_mod_eq [symmetric])
  have r_lt: "r < 2 ^ k" by (simp add: r_def)
  have pw: "(2::nat) ^ k = 2 * 2 ^ (k - 1)" using k1 by (cases k) auto
  have rd: "roundDouble n \<le> n + 2 ^ (k - 1)"
  proof (cases "2 ^ (k - 1) < r \<or> (r = 2 ^ (k - 1) \<and> odd q)")
    case True
    then have "roundDouble n = (q + 1) * 2 ^ k"
      using False by (simp add: roundDouble_def Let_def k_def q_def r_def)
    moreover from True have "2 ^ (k - 1) \<le> r" by auto
    ultimately show ?thesis using n_eq pw by (simp add: algebra_simps)
  next
    case f: False
    then have "roundDouble n = q * 2 ^ k"
      using False by (simp add: roundDouble_def Let_def k_def q_def r_def)
    then show ?thesis using n_eq by simp
  qed
  from k1 obtain k' where k': "k = Suc k'" by (cases k) auto
  have "(2::nat) ^ (k' + 53) = 2 ^ k' * 2 ^ 53" by (rule power_add)
  moreover have "k' + 53 = k + 52" by (simp add: k')
  ultimately have "(2::nat) ^ (k - 1) * 2 ^ 53 = 2 ^ (k + 52)" by (simp add: k')
  with low have "(2::nat) ^ (k - 1) * 2 ^ 53 \<le> n" by simp
  moreover from rd have "roundDouble n * 2 ^ 53 \<le> (n + 2 ^ (k - 1)) * 2 ^ 53"
    by (rule mult_le_mono1)
  ultimately show ?thesis by (simp add: algebra_simps)
qed


lemma floorMul_le: "floorMul w (Suc i) \<le> i"
proof -
  define N where "N = unat w * Suc i"
  have "unat w < 2 ^ 32" using unsigned_less [of w, where 'a = nat] by simp
  then have "unat w \<le> 4294967295" by simp
  then have "N \<le> 4294967295 * Suc i" unfolding N_def by (rule mult_le_mono1)
  then have "N * (2 ^ 53 + 1) \<le> (4294967295 * Suc i) * (2 ^ 53 + 1)"
    by (rule mult_le_mono1)
  with roundDouble_error [of N]
  have "roundDouble N * 2 ^ 53 \<le> (4294967295 * Suc i) * (2 ^ 53 + 1)" by linarith
  also have "\<dots> < (Suc i * 4294967296) * 2 ^ 53" by simp
  finally have "roundDouble N < Suc i * 4294967296" by simp
  then have "roundDouble N div 4294967296 < Suc i"
    by (simp add: less_mult_imp_div_less)
  then show ?thesis by (simp add: floorMul_def N_def)
qed

lemma unat_u32_less: "unat (w :: u32) < 4294967296"
  using unsigned_less [of w, where 'a = nat] by simp

lemma ratio_range:
  "n < 4294967296 \<Longrightarrow> 0 \<le> (of_nat n :: rat) / 4294967296 \<and> (of_nat n :: rat) / 4294967296 < 1"
proof -
  assume "n < 4294967296"
  then have "(of_nat n :: rat) < of_nat 4294967296"
    by (simp only: of_nat_less_iff)
  then show ?thesis by simp
qed

lemma draw_range: "0 \<le> draw w \<and> draw w < 1"
  unfolding draw_def by (rule ratio_range) (rule unat_u32_less)

section \<open>SlideshowSequencer: the loop and the specified algorithm\<close>

lemma swapTrace_bounds:
  "(i', j) \<in> set (swapTrace a i) \<Longrightarrow> j \<le> i' \<and> 0 < i' \<and> i' \<le> i"
proof (induction a i rule: swapTrace.induct)
  case (1 a i)
  show ?case
  proof (cases "0 < i")
    case True
    then obtain m where m: "i = Suc m" by (cases i) auto
    from True 1(2) have "(i', j) = (i, floorMul (snd (mulberry32 a)) (i + 1))
        \<or> (i', j) \<in> set (swapTrace (fst (mulberry32 a)) (i - 1))"
      by (simp add: swapTrace.simps [of a i])
    then show ?thesis
    proof
      assume "(i', j) = (i, floorMul (snd (mulberry32 a)) (i + 1))"
      then show ?thesis using True floorMul_le [of "snd (mulberry32 a)" i] by simp
    next
      assume "(i', j) \<in> set (swapTrace (fst (mulberry32 a)) (i - 1))"
      with 1(1) [OF True] show ?thesis by auto
    qed
  next
    case False
    with 1(2) show ?thesis by (simp add: swapTrace.simps [of a i])
  qed
qed

lemma shuffleLoop_trace:
  "shuffleLoop a images i = fold (\<lambda>(i, j) im. swapElements im i j) (swapTrace a i) images"
proof (induction a images i rule: shuffleLoop.induct)
  case (1 a images i)
  show ?case
  proof (cases "0 < i")
    case True
    with 1 show ?thesis
      by (simp add: shuffleLoop.simps [of a images i] swapTrace.simps [of a i])
  next
    case False
    then have i0: "i = 0" by simp
    show ?thesis unfolding i0
      by (simp add: shuffleLoop.simps [of a images 0] swapTrace.simps [of a 0])
  qed
qed

lemma swapElements_swap:
  "i < length xs \<Longrightarrow> j < length xs \<Longrightarrow> swapElements xs i j = xs[i := xs ! j, j := xs ! i]"
  by (simp add: swapElements_def arrayGet_def arraySet_def)


lemma length_swapElements:
  "i < length xs \<Longrightarrow> j < length xs \<Longrightarrow> length (swapElements xs i j) = length xs"
  by (simp add: swapElements_swap)





lemma length_fisherYatesStep [simp]: "length (fisherYatesStep seed ki xs) = length xs"
  by (simp add: fisherYatesStep_def Let_def)



lemma length_fold_swaps:
  "\<forall>(u, v)\<in>set tr. u < length xs \<and> v < length xs \<Longrightarrow>
     length (fold (\<lambda>(i, j) im. swapElements im i j) tr xs) = length xs"
proof (induction tr arbitrary: xs)
  case Nil
  then show ?case by simp
next
  case (Cons p tr)
  obtain i j where p: "p = (i, j)" by (cases p)
  with Cons.prems have len: "length (swapElements xs i j) = length xs"
    by (simp add: length_swapElements)
  from Cons.prems
  have "\<forall>(u, v)\<in>set tr. u < length (swapElements xs i j) \<and> v < length (swapElements xs i j)"
    unfolding len by simp
  from Cons.IH [OF this] len p show ?case by simp
qed


lemma swapTrace_in_array:
  assumes "(i', j) \<in> set (swapTrace a (length images - 1))"
  shows "j \<le> i' \<and> i' < length images"
proof -
  from swapTrace_bounds [OF assms] have "j \<le> i'" "0 < i'" "i' \<le> length images - 1" by auto
  then show ?thesis by auto
qed


lemma mulberry32_0: "mulberry32 0 = (1831565813, 1144304738)"
  by (simp add: mulberry32_def advance_def roundDouble_def temper_def Let_def)

lemma mulberry32_1: "mulberry32 1831565813 = (3663131626, 1416247)"
  by (simp add: mulberry32_def advance_def roundDouble_def temper_def Let_def)

section \<open>SlideshowSequencer: the element that ends in the last place\<close>















section \<open>SlideshowSequencer: the claims\<close>

text \<open>
  Claim C10. Every value drawn from the generator lies in \<open>[0, 1)\<close>, so the swap index
  \<open>j = floor (draw * (i + 1))\<close> satisfies \<open>j \<le> i\<close>; the loop is the sequence of swaps
  at the index pairs of \<open>swapTrace\<close>, each of these pairs satisfies \<open>j \<le> i\<close> and
  \<open>i < length images\<close>, and so the array is never read or written out of bounds: its
  length is unchanged.
\<close>

theorem shuffle_indices_in_bounds:
  "0 \<le> draw (snd (mulberry32 a)) \<and> draw (snd (mulberry32 a)) < 1
   \<and> floorMul (snd (mulberry32 a)) (i + 1) \<le> i
   \<and> seededShuffle seed images =
       fold (\<lambda>(i, j) im. swapElements im i j) (swapTrace (unat seed) (length images - 1)) images
   \<and> (\<forall>(i', j)\<in>set (swapTrace (unat seed) (length images - 1)). j \<le> i' \<and> i' < length images)
   \<and> length (seededShuffle seed images) = length images"
proof -
  let ?tr = "swapTrace (unat seed) (length images - 1)"
  have d: "0 \<le> draw (snd (mulberry32 a)) \<and> draw (snd (mulberry32 a)) < 1"
    by (rule draw_range)
  have f: "floorMul (snd (mulberry32 a)) (i + 1) \<le> i"
    using floorMul_le [of "snd (mulberry32 a)" i] by simp
  have l: "seededShuffle seed images = fold (\<lambda>(i, j) im. swapElements im i j) ?tr images"
    by (simp add: seededShuffle_def shuffleLoop_trace)
  have b: "\<forall>(i', j)\<in>set ?tr. j \<le> i' \<and> i' < length images"
    using swapTrace_in_array by blast
  then have "\<forall>(i', j)\<in>set ?tr. i' < length images \<and> j < length images" by fastforce
  then have "length (fold (\<lambda>(i, j) im. swapElements im i j) ?tr images) = length images"
    by (rule length_fold_swaps)
  with l have n: "length (seededShuffle seed images) = length images" by simp
  from d f l b n show ?thesis by blast
qed

theorem shuffle_indices_in_bounds_witness:
  "floorMul (snd (mulberry32 0)) (2 + 1) \<le> 2
   \<and> swapTrace (unat (0 :: u32)) (length [Some ''a.jpg'', Some ''b.jpg'', Some ''c.jpg''] - 1)
       = [(2, 0), (1, 0)]
   \<and> length (seededShuffle 0 [Some ''a.jpg'', Some ''b.jpg'', Some ''c.jpg''])
       = length [Some ''a.jpg'', Some ''b.jpg'', Some ''c.jpg'']"
proof -
  note th = shuffle_indices_in_bounds [of 0 2 0 "[Some ''a.jpg'', Some ''b.jpg'', Some ''c.jpg'']"]
  from th have a: "floorMul (snd (mulberry32 0)) (2 + 1) \<le> 2" by blast
  from th have b: "length (seededShuffle 0 [Some ''a.jpg'', Some ''b.jpg'', Some ''c.jpg''])
       = length [Some ''a.jpg'', Some ''b.jpg'', Some ''c.jpg'']" by blast
  have c: "swapTrace (unat (0 :: u32)) (length [Some ''a.jpg'', Some ''b.jpg'', Some ''c.jpg''] - 1)
       = [(2, 0), (1, 0)]"
    by (simp add: swapTrace.simps mulberry32_0 mulberry32_1 floorMul_def roundDouble_def)
  from a b c show ?thesis by blast
qed




text \<open>
  Claim C2. Removing one item and shuffling again with the same seed should keep the
  relative order of the remaining items. With the seed \<open>0\<close> the three files below come
  out as \<^verbatim>\<open>b.jpg, c.jpg, a.jpg\<close>; after \<^verbatim>\<open>a.jpg\<close> is deleted the two remaining files
  come out as \<^verbatim>\<open>c.jpg, b.jpg\<close>: the draw that placed the third element now places the
  second, and the two files have changed places.
\<close>

theorem shuffle_after_delete_reorders:
  "seededShuffle 0 (map Some [''a.jpg'', ''b.jpg'', ''c.jpg''])
     = map Some [''b.jpg'', ''c.jpg'', ''a.jpg'']
   \<and> seededShuffle 0 (map Some (remove1 ''a.jpg'' [''a.jpg'', ''b.jpg'', ''c.jpg'']))
     = map Some [''c.jpg'', ''b.jpg'']"
  by (simp add: seededShuffle_def shuffleLoop.simps mulberry32_0 mulberry32_1
      floorMul_def roundDouble_def swapElements_def arrayGet_def arraySet_def)

section \<open>Paths made of plain file names\<close>

lemma split_on_notin: "c \<notin> set s \<Longrightarrow> split_on c s = [s]"
  by (induction s) auto

lemma split_on_append: "split_on c (a @ c # b) = split_on c a @ split_on c b"
proof (induction a)
  case Nil
  then show ?case by simp
next
  case (Cons x a)
  obtain s ss where ss: "split_on c a = s # ss"
    using split_on_ne [of c a] by (cases "split_on c a") auto
  with Cons show ?case by simp
qed

lemma split_on_segment: "c \<notin> set s \<Longrightarrow> split_on c (s @ c # b) = s # split_on c b"
  by (simp add: split_on_append split_on_notin)

lemma join_with_Cons: "ss \<noteq> [] \<Longrightarrow> join_with sep (s # ss) = s @ sep @ join_with sep ss"
  by (cases ss) auto

lemma split_on_join:
  "segs \<noteq> [] \<Longrightarrow> \<forall>s\<in>set segs. c \<notin> set s \<Longrightarrow> split_on c (join_with [c] segs) = segs"
proof (induction segs)
  case Nil
  then show ?case by simp
next
  case (Cons s segs)
  show ?case
  proof (cases "segs = []")
    case True
    with Cons.prems show ?thesis by (simp add: split_on_notin)
  next
    case False
    with Cons have "split_on c (join_with [c] segs) = segs" by simp
    with False Cons.prems show ?thesis
      by (simp add: join_with_Cons split_on_segment)
  qed
qed

lemma join_with_snoc: "xs \<noteq> [] \<Longrightarrow> join_with sep (xs @ [y]) = join_with sep xs @ sep @ y"
proof (induction xs)
  case Nil
  then show ?case by simp
next
  case (Cons x xs)
  then show ?case by (cases "xs = []") (simp_all add: join_with_Cons)
qed

lemma join_with_eq_Nil: "join_with sep segs = [] \<Longrightarrow> \<forall>s\<in>set segs. s \<noteq> [] \<Longrightarrow> segs = []"
  by (induction sep segs rule: join_with.induct) auto

lemma hd_join_with: "segs \<noteq> [] \<Longrightarrow> hd segs \<noteq> [] \<Longrightarrow> hd (join_with sep segs) = hd (hd segs)"
  by (induction sep segs rule: join_with.induct) auto

lemma join_with_last_ne:
  "segs \<noteq> [] \<Longrightarrow> last segs \<noteq> [] \<Longrightarrow> join_with sep segs \<noteq> []"
  by (induction sep segs rule: join_with.induct) auto

lemma last_join_with:
  "segs \<noteq> [] \<Longrightarrow> last segs \<noteq> [] \<Longrightarrow> last (join_with sep segs) = last (last segs)"
proof (induction sep segs rule: join_with.induct)
  case (3 sep s t ss)
  then have "join_with sep (t # ss) \<noteq> []" using join_with_last_ne [of "t # ss" sep] by simp
  with 3 show ?case by simp
qed simp_all

lemma normStep_valid: "validName seg \<Longrightarrow> normStep b res seg = res @ [seg]"
  by (auto simp: normStep_def validName_def)

lemma foldl_normStep_valid:
  "\<forall>s\<in>set segs. validName s \<Longrightarrow> foldl (normStep b) res segs = res @ segs"
  by (induction segs arbitrary: res) (simp_all add: normStep_valid)

lemma normalize_valid:
  assumes ne: "segs \<noteq> []" and valid: "\<forall>s\<in>set segs. validName s"
  shows "normalizePath (join_with ''/'' segs) = join_with ''/'' segs"
proof -
  let ?p = "join_with ''/'' segs"
  from valid have nonempty: "\<forall>s\<in>set segs. s \<noteq> []" and noslash: "\<forall>s\<in>set segs. CHR ''/'' \<notin> set s"
    by (auto simp: validName_def)
  from ne nonempty have p: "?p \<noteq> []" using join_with_eq_Nil by blast
  from ne nonempty noslash have "hd (hd segs) \<noteq> CHR ''/''"
    by (metis hd_in_set list.set_sel(1))
  with ne nonempty have "hd ?p \<noteq> CHR ''/''" by (simp add: hd_join_with)
  then have abs: "\<not> isAbsolute ?p" by (simp add: isAbsolute_def)
  from ne nonempty noslash have "last (last segs) \<noteq> CHR ''/''"
    by (metis last_in_set)
  with ne nonempty have trail: "last ?p \<noteq> CHR ''/''" by (simp add: last_join_with)
  have "normalizeSegments True ?p = segs"
    using split_on_join [OF ne noslash] foldl_normStep_valid [OF valid, of True "[]"]
    by (simp add: normalizeSegments_def)
  then have "normalizeString ?p True = ?p" by (simp add: normalizeString_def)
  with p abs trail show ?thesis by (simp add: normalizePath_def Let_def)
qed

lemma path_join_valid:
  assumes "segs \<noteq> []" "\<forall>s\<in>set segs. validName s" "validName name"
  shows "path_join [join_with ''/'' segs, name] = join_with ''/'' (segs @ [name])"
proof -
  from assms have "join_with ''/'' segs \<noteq> []"
    using join_with_eq_Nil [of "''/''" segs] by (auto simp: validName_def)
  moreover from assms have "name \<noteq> []" by (simp add: validName_def)
  ultimately have "path_join [join_with ''/'' segs, name] =
      normalizePath (join_with ''/'' segs @ ''/'' @ name)"
    by (simp add: path_join_def)
  also have "join_with ''/'' segs @ ''/'' @ name = join_with ''/'' (segs @ [name])"
    using assms(1) by (simp add: join_with_snoc)
  also have "normalizePath \<dots> = join_with ''/'' (segs @ [name])"
    using assms by (intro normalize_valid) auto
  finally show ?thesis .
qed

section \<open>CollectionScanner: what the scan returns\<close>

lemma filePaths_nonempty:
  "p \<in> set (filePaths node) \<Longrightarrow> p \<noteq> []"
  "p \<in> set (entryPaths es) \<Longrightarrow> p \<noteq> []"
  by (induction node and es arbitrary: p and p rule: filePaths_entryPaths.induct)
     (auto split: if_splits)

lemma filter_image_map_Cons:
  "\<forall>p\<in>set ps. p \<noteq> [] \<Longrightarrow>
     filter (\<lambda>p. isImageName (last p)) (map (\<lambda>p. name # p) ps) =
       map (\<lambda>p. name # p) (filter (\<lambda>p. isImageName (last p)) ps)"
  by (induction ps) auto

lemma scan_succeeds_iff:
  "(\<exists>r. scanDir node rel images = Inr r) \<longleftrightarrow> isDirectoryNode node \<and> allReadable node"
  "(\<exists>r. scanEntries es rel images = Inr r) \<longleftrightarrow> allReadableEntries es"
proof (induction node rel images and es rel images rule: scanDir_scanEntries.induct)
  case (6 name node es rel images)
  let ?relPath = "if rel \<noteq> [] then path_join [rel, name] else name"
  show ?case
  proof (cases "entryIsDirectory node")
    case True
    note dir = True
    show ?thesis
    proof (cases "scanDir node ?relPath images")
      case (Inl e)
      with 6(1) [OF refl dir] have "\<not> (isDirectoryNode node \<and> allReadable node)" by auto
      moreover from dir have "isDirectoryNode node \<or> \<not> allReadable node" by (cases node) auto
      ultimately have "\<not> allReadable node" by blast
      with Inl dir show ?thesis by (simp add: Let_def)
    next
      case (Inr images')
      with 6(1) [OF refl dir] have "allReadable node" by auto
      with Inr dir 6(2) [OF refl dir Inr] show ?thesis by (simp add: Let_def)
    qed
  next
    case False
    then have r: "allReadable node" by (cases node) auto
    show ?thesis
    proof (cases "entryIsFile node \<and> isImageName name")
      case True
      with False r 6(3) [OF refl False True] show ?thesis by (simp add: Let_def)
    next
      case f: False
      with False r 6(4) [OF refl False f] show ?thesis by (auto simp add: Let_def)
    qed
  qed
qed simp_all

lemma relPath_eq:
  assumes "\<forall>s\<in>set segs. validName s" "validName name"
  shows "(if join_with ''/'' segs \<noteq> [] then path_join [join_with ''/'' segs, name] else name)
           = join_with ''/'' (segs @ [name])"
proof (cases "segs = []")
  case True
  then show ?thesis by simp
next
  case False
  with assms have "join_with ''/'' segs \<noteq> []"
    using join_with_eq_Nil [of "''/''" segs] by (auto simp: validName_def)
  with False assms show ?thesis by (simp add: path_join_valid)
qed

lemma scan_listing:
  "\<forall>s\<in>set segs. validName s \<Longrightarrow> wellNamed node \<Longrightarrow> allReadable node \<Longrightarrow>
     isDirectoryNode node \<Longrightarrow> rel = join_with ''/'' segs \<Longrightarrow>
     scanDir node rel acc =
       Inr (acc @ map (\<lambda>p. join_with ''/'' (segs @ p))
                    (filter (\<lambda>p. isImageName (last p)) (filePaths node)))"
  "\<forall>s\<in>set segs. validName s \<Longrightarrow> wellNamedEntries es \<Longrightarrow> allReadableEntries es \<Longrightarrow>
     rel = join_with ''/'' segs \<Longrightarrow>
     scanEntries es rel acc =
       Inr (acc @ map (\<lambda>p. join_with ''/'' (segs @ p))
                    (filter (\<lambda>p. isImageName (last p)) (entryPaths es)))"
proof (induction node rel acc and es rel acc arbitrary: segs and segs
    rule: scanDir_scanEntries.induct)
  case (6 name node es rel acc)
  let ?img = "\<lambda>p. isImageName (last p)"
  let ?relPath = "if rel \<noteq> [] then path_join [rel, name] else name"
  from "6.prems" have name: "validName name" and wn: "wellNamed node"
    and wes: "wellNamedEntries es" and rn: "allReadable node" and res: "allReadableEntries es"
    by auto
  have relPath: "?relPath = join_with ''/'' (segs @ [name])"
    unfolding "6.prems"(4) by (rule relPath_eq [OF "6.prems"(1) name])
  have segs': "\<forall>s\<in>set (segs @ [name]). validName s" using "6.prems"(1) name by auto
  show ?case
  proof (cases "entryIsDirectory node")
    case True
    note dir = True
    with rn have isdir: "isDirectoryNode node" by (cases node) auto
    have sub: "scanDir node ?relPath acc =
        Inr (acc @ map (\<lambda>p. join_with ''/'' ((segs @ [name]) @ p)) (filter ?img (filePaths node)))"
      by (rule "6.IH"(1) [OF refl dir segs' wn rn isdir relPath])
    let ?acc' = "acc @ map (\<lambda>p. join_with ''/'' ((segs @ [name]) @ p)) (filter ?img (filePaths node))"
    have rest: "scanEntries es rel ?acc' =
        Inr (?acc' @ map (\<lambda>p. join_with ''/'' (segs @ p)) (filter ?img (entryPaths es)))"
      by (rule "6.IH"(2) [OF refl dir sub "6.prems"(1) wes res "6.prems"(4)])
    from dir have notfile: "\<not> entryIsFile node" by (cases node) auto
    have "filter ?img (map (\<lambda>p. name # p) (filePaths node)) =
        map (\<lambda>p. name # p) (filter ?img (filePaths node))"
      using filePaths_nonempty(1) by (intro filter_image_map_Cons) blast
    with dir notfile sub rest show ?thesis by (simp add: Let_def comp_def)
  next
    case False
    note nodir = False
    show ?thesis
    proof (cases "entryIsFile node \<and> isImageName name")
      case True
      have "scanEntries es rel (acc @ [?relPath]) =
          Inr ((acc @ [?relPath]) @ map (\<lambda>p. join_with ''/'' (segs @ p)) (filter ?img (entryPaths es)))"
        by (rule "6.IH"(3) [OF refl nodir True "6.prems"(1) wes res "6.prems"(4)])
      with nodir True relPath show ?thesis by (simp add: Let_def)
    next
      case f: False
      have rest: "scanEntries es rel acc =
          Inr (acc @ map (\<lambda>p. join_with ''/'' (segs @ p)) (filter ?img (entryPaths es)))"
        by (rule "6.IH"(4) [OF refl nodir f "6.prems"(1) wes res "6.prems"(4)])
      from nodir have "entryIsFile node \<or> filePaths node = []" by (cases node) auto
      with nodir f rest show ?thesis by (auto simp add: Let_def)
    qed
  qed
qed simp_all

lemma isImageName_examples:
  "isImageName ''a.JPG''" "isImageName ''b.png''" "isImageName ''c.webp''"
  "\<not> isImageName ''notes.txt''" "isImageName ''a.jpg''"
  by (simp_all add: isImageName_def imageExtensions_def endsWith_def lowerChar_def)

lemma getAllImages_succeeds_iff:
  "(\<exists>imgs. getAllImages dir = Inr imgs) \<longleftrightarrow> isDirectoryNode dir \<and> allReadable dir"
proof -
  have "(\<exists>imgs. getAllImages dir = Inr imgs) \<longleftrightarrow> (\<exists>r. scanDir dir [] [] = Inr r)"
    by (auto simp: getAllImages_def split: sum.splits)
  then show ?thesis by (simp add: scan_succeeds_iff(1))
qed

section \<open>CollectionScanner: the claims\<close>

text \<open>
  Claim C8, as amended. The scan has no handler of its own: it returns a listing exactly
  when the scan root is a directory and it and every directory beneath it can be read;
  a failure to read any directory, however deep, ends the whole scan with that error.
  The slideshow loader catches the error and answers with an empty list of images.
\<close>

theorem scan_failure_propagates:
  "((\<exists>imgs. getAllImages dir = Inr imgs) \<longleftrightarrow> isDirectoryNode dir \<and> allReadable dir)
   \<and> (resolvePhotoPath env fs (dropTrailingSlash (case splat q of None \<Rightarrow> [] | Some p \<Rightarrow> p))
          = Some (Entry fp bd rp)
        \<and> fp \<noteq> [] \<and> nodes fs fp = Some dir \<and> \<not> (isDirectoryNode dir \<and> allReadable dir)
      \<longrightarrow> slideshowLoader env fs q =
            SlideshowData [] (dropTrailingSlash (case splat q of None \<Rightarrow> [] | Some p \<Rightarrow> p))
              bd False)"
proof (intro conjI impI)
  show "(\<exists>imgs. getAllImages dir = Inr imgs) \<longleftrightarrow> isDirectoryNode dir \<and> allReadable dir"
    by (rule getAllImages_succeeds_iff)
next
  let ?dirPath = "dropTrailingSlash (case splat q of None \<Rightarrow> [] | Some p \<Rightarrow> p)"
  assume a: "resolvePhotoPath env fs ?dirPath = Some (Entry fp bd rp)
        \<and> fp \<noteq> [] \<and> nodes fs fp = Some dir \<and> \<not> (isDirectoryNode dir \<and> allReadable dir)"
  then have "\<not> (\<exists>imgs. getAllImages dir = Inr imgs)"
    using getAllImages_succeeds_iff [of dir] by simp
  then obtain e where "getAllImages dir = Inl e" by (cases "getAllImages dir") auto
  with a have "getAllImagesAt fs fp = Inl e" by (simp add: getAllImagesAt_def)
  with a show "slideshowLoader env fs q = SlideshowData [] ?dirPath bd False"
    by (simp add: slideshowLoader_def Let_def)
qed

theorem scan_failure_propagates_witness:
  "slideshowLoader (Some ''/data/photos'')
     \<lparr>stats = Map.empty, files = Map.empty,
      nodes = [''/data/photos'' \<mapsto>
                 Directory [(''a.jpg'', RegularFile),
                            (''sub'', Directory [(''b.png'', RegularFile),
                                                 (''locked'', UnreadableDirectory)])]]\<rparr>
     \<lparr>splat = Some ''photos'', randomParam = None, seedParam = None,
      toUint32 = (\<lambda>s. 0), freshSeedUrl = []\<rparr>
   = SlideshowData [] ''photos'' ''/data/photos'' False"
proof -
  let ?dir = "Directory [(''a.jpg'', RegularFile),
                (''sub'', Directory [(''b.png'', RegularFile), (''locked'', UnreadableDirectory)])]"
  let ?fs = "\<lparr>stats = Map.empty, files = Map.empty, nodes = [''/data/photos'' \<mapsto> ?dir]\<rparr>"
  let ?q = "\<lparr>splat = Some ''photos'', randomParam = None, seedParam = None,
      toUint32 = (\<lambda>s. 0 :: u32), freshSeedUrl = []\<rparr>"
  have r: "resolvePhotoPath (Some ''/data/photos'') ?fs
             (dropTrailingSlash (case splat ?q of None \<Rightarrow> [] | Some p \<Rightarrow> p))
           = Some (Entry ''/data/photos'' ''/data/photos'' [])"
    by (simp add: dropTrailingSlash_def resolvePhotoPath_def resolveIO_def
      configuredDirs_def trimSlashes_def basename_def Let_def path_join_def normalizePath_def
      normalizeString_def normalizeSegments_def normStep_def isAbsolute_def)
  have n: "nodes ?fs ''/data/photos'' = Some ?dir" by simp
  have u: "\<not> (isDirectoryNode ?dir \<and> allReadable ?dir)" by simp
  from scan_failure_propagates [of ?dir "Some ''/data/photos''" ?fs ?q "''/data/photos''"
      "''/data/photos''" "[]"] r n u
  show ?thesis by (simp add: dropTrailingSlash_def)
qed

text \<open>
  Claim C8, as stated, fails: the file \<^verbatim>\<open>a.jpg\<close> is listed when it is alone, and next to
  one unreadable folder the scan ends with the error and the loader's list is empty.
\<close>

theorem unreadable_subfolder_blanks_scan:
  "getAllImages (Directory [(''a.jpg'', RegularFile)]) = Inr [''a.jpg'']
   \<and> getAllImages (Directory [(''a.jpg'', RegularFile), (''sub'', UnreadableDirectory)])
       = Inl EACCES
   \<and> slideshowLoader (Some ''/data/photos'')
       \<lparr>stats = Map.empty, files = Map.empty,
        nodes = [''/data/photos'' \<mapsto>
                   Directory [(''a.jpg'', RegularFile), (''sub'', UnreadableDirectory)]]\<rparr>
       \<lparr>splat = Some ''photos'', randomParam = None, seedParam = None,
        toUint32 = (\<lambda>s. 0), freshSeedUrl = []\<rparr>
     = SlideshowData [] ''photos'' ''/data/photos'' False"
  by (simp add: slideshowLoader_def dropTrailingSlash_def resolvePhotoPath_def resolveIO_def
      configuredDirs_def trimSlashes_def basename_def Let_def path_join_def normalizePath_def
      normalizeString_def normalizeSegments_def normStep_def isAbsolute_def
      getAllImagesAt_def getAllImages_def isImageName_examples)

text \<open>
  Claim C9. For a tree of plainly named entries whose directories can all be read, the
  scan returns exactly the paths, relative to the scan root and joined by \<^verbatim>\<open>/\<close>, of the
  regular files whose name ends in an allowed extension (whatever the case of its
  letters), in lexicographic order. The example of the specification is the witness.
\<close>

theorem getAllImages_listing:
  assumes "isDirectoryNode dir" and "allReadable dir" and "wellNamed dir"
  shows "getAllImages dir = Inr (specListing dir)
         \<and> sorted (specListing dir)
         \<and> set (specListing dir) =
             {join_with ''/'' p | p. p \<in> set (filePaths dir) \<and> isImageName (last p)}"
proof -
  have "scanDir dir [] [] =
      Inr ([] @ map (\<lambda>p. join_with ''/'' ([] @ p)) (filter (\<lambda>p. isImageName (last p)) (filePaths dir)))"
    using assms by (intro scan_listing(1)) simp_all
  then have "getAllImages dir = Inr (specListing dir)"
    by (simp add: getAllImages_def specListing_def)
  moreover have "sorted (specListing dir)" by (simp add: specListing_def)
  moreover have "set (specListing dir) =
             {join_with ''/'' p | p. p \<in> set (filePaths dir) \<and> isImageName (last p)}"
    by (auto simp: specListing_def)
  ultimately show ?thesis by blast
qed

theorem getAllImages_listing_witness:
  "getAllImages (Directory [(''b.png'', RegularFile), (''a.JPG'', RegularFile),
      (''sub'', Directory [(''c.webp'', RegularFile)]), (''notes.txt'', RegularFile)])
   = Inr [''a.JPG'', ''b.png'', ''sub/c.webp'']"
proof -
  let ?dir = "Directory [(''b.png'', RegularFile), (''a.JPG'', RegularFile),
      (''sub'', Directory [(''c.webp'', RegularFile)]), (''notes.txt'', RegularFile)]"
  have d: "isDirectoryNode ?dir" by simp
  have r: "allReadable ?dir" by simp
  have w: "wellNamed ?dir" by (simp add: validName_def)
  have s: "specListing ?dir = [''a.JPG'', ''b.png'', ''sub/c.webp'']"
    by (simp add: specListing_def isImageName_examples)
  from getAllImages_listing [OF d r w] s show ?thesis by simp
qed

section \<open>The serving entry points: the claims\<close>

lemma serveThumbnail_stat_fails:
  assumes "fst (resolveIO (PHOTO_DIRS pf) fs (case starParam args of None \<Rightarrow> [] | Some p \<Rightarrow> p))
             = Some (Entry path bd rp)"
    and "stats fs path = None"
  shows "fst (serveThumbnail pf fs args) = Response 500 ''Error generating thumbnail'' []"
  using assms by (simp add: serveThumbnail_def Let_def)

text \<open>
  Claim C4. A thumbnail request for a path that does not exist should be answered with
  NotFound. In the thumbnail loader \<^verbatim>\<open>fs.stat\<close> is inside the \<^verbatim>\<open>try\<close> block whose
  \<^verbatim>\<open>catch\<close> answers 500: with one library \<^verbatim>\<open>/data/photos\<close> and an empty file system, the
  request for the missing \<^verbatim>\<open>photos/missing.jpg\<close> and the request for \<^verbatim>\<open>elsewhere/x.jpg\<close>,
  a path outside every library, both get the status 500. The photo loader answers the
  first request with 404.
\<close>

theorem thumbnail_missing_file_is_server_error:
  "fst (thumbnailsLoader
         \<lparr>PHOTO_DIRS = Some ''/data/photos'', RR_REQUEST = None,
          authCookieParse = (\<lambda>h. None), CACHE_DIR = ''/app/.cache/thumbnails'',
          md5Hex = (\<lambda>p m. ''0f''), sharpThumbnail = (\<lambda>p. None)\<rparr>
         \<lparr>stats = Map.empty, files = Map.empty, nodes = Map.empty\<rparr>
         \<lparr>argsRequest = \<lparr>cookieHeader = None\<rparr>, starParam = Some ''photos/missing.jpg''\<rparr>)
     = Response 500 ''Error generating thumbnail'' []
   \<and> fst (thumbnailsLoader
         \<lparr>PHOTO_DIRS = Some ''/data/photos'', RR_REQUEST = None,
          authCookieParse = (\<lambda>h. None), CACHE_DIR = ''/app/.cache/thumbnails'',
          md5Hex = (\<lambda>p m. ''0f''), sharpThumbnail = (\<lambda>p. None)\<rparr>
         \<lparr>stats = Map.empty, files = Map.empty, nodes = Map.empty\<rparr>
         \<lparr>argsRequest = \<lparr>cookieHeader = None\<rparr>, starParam = Some ''elsewhere/x.jpg''\<rparr>)
     = Response 500 ''Error generating thumbnail'' []
   \<and> fst (photosLoader
         \<lparr>PHOTO_DIRS = Some ''/data/photos'', RR_REQUEST = None,
          authCookieParse = (\<lambda>h. None), CACHE_DIR = ''/app/.cache/thumbnails'',
          md5Hex = (\<lambda>p m. ''0f''), sharpThumbnail = (\<lambda>p. None)\<rparr>
         \<lparr>stats = Map.empty, files = Map.empty, nodes = Map.empty\<rparr>
         \<lparr>argsRequest = \<lparr>cookieHeader = None\<rparr>, starParam = Some ''photos/missing.jpg''\<rparr>)
     = Response 404 ''File not found'' []"
  by (simp add: thumbnailsLoader_def serveThumbnail_def photosLoader_def servePhoto_def
      resolve_eval)

text \<open>
  Claim C5, as amended. When \<^verbatim>\<open>globalThis.__RR_REQUEST\<close> holds a request and the
  authorization predicate is false for it, both entry points answer Unauthorized with no
  file-system call made (and the file system unchanged). When it holds no request, no
  check is made and the loaders go on to serve.
\<close>

theorem unauthorized_before_fs_work:
  "(RR_REQUEST pf = Some req \<and> \<not> isAuthenticated (authCookieParse pf) req \<longrightarrow>
      photosLoader pf fs args = (Response 401 ''Unauthorized'' [], [])
      \<and> thumbnailsLoader pf fs args = (Response 401 ''Unauthorized'' [], [], fs))
   \<and> (RR_REQUEST pf = None \<longrightarrow>
      photosLoader pf fs args = servePhoto pf fs args
      \<and> thumbnailsLoader pf fs args = serveThumbnail pf fs args)"
  by (simp add: photosLoader_def thumbnailsLoader_def)

theorem unauthorized_before_fs_work_witness:
  "photosLoader
     \<lparr>PHOTO_DIRS = Some ''/data/photos'', RR_REQUEST = Some \<lparr>cookieHeader = None\<rparr>,
      authCookieParse = (\<lambda>h. None), CACHE_DIR = ''/app/.cache/thumbnails'',
      md5Hex = (\<lambda>p m. ''0f''), sharpThumbnail = (\<lambda>p. Some ''thumb'')\<rparr>
     \<lparr>stats = [''/data/photos/a.jpg'' \<mapsto> \<lparr>isFile = True, mtimeMs = 1\<rparr>],
      files = [''/data/photos/a.jpg'' \<mapsto> ''bytes''], nodes = Map.empty\<rparr>
     \<lparr>argsRequest = \<lparr>cookieHeader = None\<rparr>, starParam = Some ''photos/a.jpg''\<rparr>
   = (Response 401 ''Unauthorized'' [], [])"
proof -
  let ?pf = "\<lparr>PHOTO_DIRS = Some ''/data/photos'', RR_REQUEST = Some \<lparr>cookieHeader = None\<rparr>,
      authCookieParse = (\<lambda>h. None :: string option), CACHE_DIR = ''/app/.cache/thumbnails'',
      md5Hex = (\<lambda>p m. ''0f''), sharpThumbnail = (\<lambda>p. Some ''thumb'')\<rparr>"
  have a: "RR_REQUEST ?pf = Some \<lparr>cookieHeader = None\<rparr>" by simp
  have b: "\<not> isAuthenticated (authCookieParse ?pf) \<lparr>cookieHeader = None\<rparr>"
    by (simp add: isAuthenticated_def)
  from unauthorized_before_fs_work [of ?pf "\<lparr>cookieHeader = None\<rparr>"] a b
  show ?thesis by blast
qed

text \<open>
  Claim C5, as stated, fails: the request below carries no cookie, so the authorization
  predicate is false for it, the global holds no request, and both loaders stat and read
  files and answer 200.
\<close>

theorem unauthorized_request_is_served:
  "\<not> isAuthenticated (\<lambda>h. None) \<lparr>cookieHeader = None\<rparr>
   \<and> photosLoader
       \<lparr>PHOTO_DIRS = Some ''/data/photos'', RR_REQUEST = None,
        authCookieParse = (\<lambda>h. None), CACHE_DIR = ''/app/.cache/thumbnails'',
        md5Hex = (\<lambda>p m. ''0f''), sharpThumbnail = (\<lambda>p. Some ''thumb'')\<rparr>
       \<lparr>stats = [''/data/photos/a.jpg'' \<mapsto> \<lparr>isFile = True, mtimeMs = 1\<rparr>],
        files = [''/data/photos/a.jpg'' \<mapsto> ''bytes''], nodes = Map.empty\<rparr>
       \<lparr>argsRequest = \<lparr>cookieHeader = None\<rparr>, starParam = Some ''photos/a.jpg''\<rparr>
     = (Response 200 ''bytes''
          [(''Content-Type'', ''image/jpeg''), (''Cache-Control'', ''public, max-age=31536000'')],
        [Stat ''/data/photos/a.jpg'', ReadFile ''/data/photos/a.jpg''])
   \<and> fst (thumbnailsLoader
       \<lparr>PHOTO_DIRS = Some ''/data/photos'', RR_REQUEST = None,
        authCookieParse = (\<lambda>h. None), CACHE_DIR = ''/app/.cache/thumbnails'',
        md5Hex = (\<lambda>p m. ''0f''), sharpThumbnail = (\<lambda>p. Some ''thumb'')\<rparr>
       \<lparr>stats = [''/data/photos/a.jpg'' \<mapsto> \<lparr>isFile = True, mtimeMs = 1\<rparr>],
        files = [''/data/photos/a.jpg'' \<mapsto> ''bytes''], nodes = Map.empty\<rparr>
       \<lparr>argsRequest = \<lparr>cookieHeader = None\<rparr>, starParam = Some ''photos/a.jpg''\<rparr>)
     = Response 200 ''thumb''
         [(''Content-Type'', ''image/webp''), (''Cache-Control'', ''public, max-age=31536000'')]"
  by (simp add: isAuthenticated_def thumbnailsLoader_def serveThumbnail_def photosLoader_def
      servePhoto_def resolve_eval extname_def getMimeType_def cacheHeaders_def lowerChar_def)

section \<open>Normalized paths\<close>

lemma split_on_no_sep: "s \<in> set (split_on c p) \<Longrightarrow> c \<notin> set s"
proof (induction p arbitrary: s)
  case Nil
  then show ?case by simp
next
  case (Cons x p)
  obtain t ts where ts: "split_on c p = t # ts"
    using split_on_ne [of c p] by (cases "split_on c p") auto
  with Cons show ?case by (auto split: if_splits)
qed

lemma normalFormI:
  "S = replicate k ''..'' @ T \<Longrightarrow> \<forall>s\<in>set T. validName s \<Longrightarrow> (\<not> b \<longrightarrow> k = 0) \<Longrightarrow>
     normalForm b S"
  unfolding normalForm_def by blast

lemma normalForm_Nil: "normalForm b []"
  by (rule normalFormI [of _ 0 "[]"]) simp_all

lemma normalForm_step:
  assumes nf: "normalForm b res" and seg: "CHR ''/'' \<notin> set seg"
  shows "normalForm b (normStep b res seg)"
proof -
  from nf obtain k T where res: "res = replicate k ''..'' @ T"
    and T: "\<forall>s\<in>set T. validName s" and k: "\<not> b \<longrightarrow> k = 0"
    by (auto simp: normalForm_def)
  consider (skip) "seg = [] \<or> seg = ''.''" | (up) "seg = ''..''"
    | (plain) "seg \<noteq> []" "seg \<noteq> ''.''" "seg \<noteq> ''..''" by blast
  then show ?thesis
  proof cases
    case skip
    then have "normStep b res seg = res" by (auto simp: normStep_def)
    with nf show ?thesis by simp
  next
    case plain
    with seg have "validName seg" by (simp add: validName_def)
    with plain T have "normStep b res seg = replicate k ''..'' @ (T @ [seg])"
      and "\<forall>s\<in>set (T @ [seg]). validName s"
      by (simp_all add: normStep_def res)
    then show ?thesis using k by (rule normalFormI)
  next
    case up
    show ?thesis
    proof (cases "T = []")
      case True
      then have resk: "res = replicate k ''..''" by (simp add: res)
      have "res = [] \<or> last res = ''..''"
        by (cases k) (simp_all add: resk)
      then have step: "normStep b res seg = (if b then replicate (Suc k) ''..'' else res)"
        using up by (auto simp: normStep_def resk replicate_append_same)
      show ?thesis
      proof (cases b)
        case True
        with step have "normStep b res seg = replicate (Suc k) ''..'' @ []" by simp
        then show ?thesis by (rule normalFormI) (simp_all add: True)
      next
        case False
        with step nf show ?thesis by simp
      qed
    next
      case False
      then have "last res = last T" and "res \<noteq> []" by (simp_all add: res)
      moreover from False T have "last T \<noteq> ''..''"
        using last_in_set [of T] by (auto simp: validName_def)
      ultimately have "normStep b res seg = butlast res"
        using up by (simp add: normStep_def)
      also have "\<dots> = replicate k ''..'' @ butlast T"
        using False by (simp add: res butlast_append)
      finally have "normStep b res seg = replicate k ''..'' @ butlast T" .
      moreover from T have "\<forall>s\<in>set (butlast T). validName s"
        by (blast dest: in_set_butlastD)
      ultimately show ?thesis using k by (rule normalFormI)
    qed
  qed
qed

lemma normalForm_foldl:
  "normalForm b res \<Longrightarrow> \<forall>s\<in>set segs. CHR ''/'' \<notin> set s \<Longrightarrow>
     normalForm b (foldl (normStep b) res segs)"
  by (induction segs arbitrary: res) (simp_all add: normalForm_step)

lemma normalForm_normalizeSegments: "normalForm b (normalizeSegments b p)"
  unfolding normalizeSegments_def
  by (rule normalForm_foldl [OF normalForm_Nil]) (simp add: split_on_no_sep)

lemma normStep_dots:
  "normStep True (replicate j ''..'') ''..'' = replicate (Suc j) ''..''"
proof (cases j)
  case 0
  then show ?thesis by (simp add: normStep_def)
next
  case (Suc i)
  have "last (replicate (Suc i) ''..'') = ''..''" by simp
  then have "normStep True (replicate (Suc i) ''..'') ''..'' = replicate (Suc i) ''..'' @ [''..'']"
    unfolding normStep_def by simp
  also have "\<dots> = replicate (Suc (Suc i)) ''..''"
    by (simp add: replicate_append_same)
  finally show ?thesis by (simp only: Suc)
qed

lemma foldl_normStep_dots:
  "foldl (normStep True) (replicate j ''..'') (replicate k ''..'') = replicate (j + k) ''..''"
proof (induction k arbitrary: j)
  case 0
  then show ?case by simp
next
  case (Suc k)
  have "foldl (normStep True) (replicate j ''..'') (replicate (Suc k) ''..'') =
      foldl (normStep True) (normStep True (replicate j ''..'') ''..'') (replicate k ''..'')"
    by (simp only: replicate_Suc foldl_Cons)
  also have "\<dots> = foldl (normStep True) (replicate (Suc j) ''..'') (replicate k ''..'')"
    by (simp only: normStep_dots)
  also have "\<dots> = replicate (Suc j + k) ''..''" by (rule Suc.IH)
  finally show ?case by (simp only: add_Suc add_Suc_right)
qed

lemma normalForm_fixed:
  assumes "normalForm b S"
  shows "foldl (normStep b) [] S = S"
proof -
  from assms obtain k T where S: "S = replicate k ''..'' @ T"
    and T: "\<forall>s\<in>set T. validName s" and k: "\<not> b \<longrightarrow> k = 0"
    unfolding normalForm_def by blast
  have dots: "foldl (normStep b) [] (replicate k ''..'') = replicate k ''..''"
  proof (cases b)
    case True
    have "foldl (normStep True) (replicate 0 ''..'') (replicate k ''..'') = replicate (0 + k) ''..''"
      by (rule foldl_normStep_dots)
    with True show ?thesis by simp
  next
    case False
    with k have "k = 0" by simp
    then show ?thesis by simp
  qed
  have "foldl (normStep b) [] S = foldl (normStep b) (foldl (normStep b) [] (replicate k ''..'')) T"
    unfolding S by (rule foldl_append)
  also have "\<dots> = replicate k ''..'' @ T"
    unfolding dots by (rule foldl_normStep_valid [OF T])
  finally show ?thesis by (simp only: S)
qed

lemma normalForm_segments:
  assumes "normalForm b S" "s \<in> set S"
  shows "s \<noteq> [] \<and> CHR ''/'' \<notin> set s"
proof -
  from assms(1) obtain k T where S: "S = replicate k ''..'' @ T"
    and T: "\<forall>s\<in>set T. validName s"
    unfolding normalForm_def by blast
  from assms(2) S have "s \<in> set (replicate k ''..'') \<or> s \<in> set T" by simp
  then show ?thesis
  proof
    assume "s \<in> set (replicate k ''..'')"
    then have "s = ''..''" using in_set_replicate [of s k "''..''"] by blast
    then show ?thesis by simp
  next
    assume "s \<in> set T"
    with T have "validName s" by blast
    then show ?thesis by (simp add: validName_def)
  qed
qed

lemma skip_empty_front: "foldl (normStep b) res ([] # segs) = foldl (normStep b) res segs"
  by (simp add: normStep_def)

lemma skip_empty_back: "foldl (normStep b) res (segs @ [[]]) = foldl (normStep b) res segs"
  by (simp add: normStep_def)

lemma normalForm_join:
  assumes nf: "normalForm b S" and ne: "S \<noteq> []"
  shows "join_with ''/'' S \<noteq> []"
    and "hd (join_with ''/'' S) \<noteq> CHR ''/''"
    and "split_on CHR ''/'' (join_with ''/'' S) = S"
proof -
  have segs: "\<forall>s\<in>set S. s \<noteq> [] \<and> CHR ''/'' \<notin> set s"
    using normalForm_segments [OF nf] by blast
  then have nonempty: "\<forall>s\<in>set S. s \<noteq> []" and noslash: "\<forall>s\<in>set S. CHR ''/'' \<notin> set s"
    by blast+
  show "join_with ''/'' S \<noteq> []" using join_with_eq_Nil [OF _ nonempty] ne by blast
  from ne have "hd S \<in> set S" by simp
  with segs have "hd S \<noteq> []" "CHR ''/'' \<notin> set (hd S)" by blast+
  then have "hd (hd S) \<noteq> CHR ''/''" by (metis list.set_sel(1))
  with ne \<open>hd S \<noteq> []\<close> show "hd (join_with ''/'' S) \<noteq> CHR ''/''"
    by (simp add: hd_join_with)
  show "split_on CHR ''/'' (join_with ''/'' S) = S"
    by (rule split_on_join [OF ne noslash])
qed

lemma normalize_facts:
  "isAbsolute (normalizePath X) = isAbsolute X \<and> pathSegments (normalizePath X) = pathSegments X"
proof (cases "X = []")
  case True
  then show ?thesis
    by (simp add: normalizePath_def isAbsolute_def pathSegments_def normalizeSegments_def normStep_def)
next
  case False
  define b where "b = (\<not> isAbsolute X)"
  define S where "S = normalizeSegments b X"
  have nf: "normalForm b S" unfolding S_def by (rule normalForm_normalizeSegments)
  have fixed: "foldl (normStep b) [] S = S" by (rule normalForm_fixed [OF nf])
  have pX: "pathSegments X = S" by (simp add: pathSegments_def S_def b_def)
  show ?thesis
  proof (cases "S = []")
    case True
    then have q: "normalizeString X (\<not> isAbsolute X) = []"
      by (simp add: normalizeString_def S_def b_def)
    have "normalizePath X = (if isAbsolute X then ''/'' else if last X = CHR ''/'' then ''./'' else ''.'')"
      using False q by (simp add: normalizePath_def Let_def)
    then show ?thesis
      using True pX
      by (auto simp: isAbsolute_def pathSegments_def normalizeSegments_def normStep_def)
  next
    case ne: False
    let ?q = "join_with ''/'' S"
    let ?pre = "if isAbsolute X then ''/'' else []"
    let ?post = "if last X = CHR ''/'' then ''/'' else []"
    note j = normalForm_join [OF nf ne]
    have q: "normalizeString X (\<not> isAbsolute X) = ?q"
      by (simp add: normalizeString_def S_def b_def)
    have n: "normalizePath X = ?pre @ ?q @ ?post"
      using False q j(1) by (simp add: normalizePath_def Let_def)
    have abs: "isAbsolute (normalizePath X) = isAbsolute X"
      using j(1) j(2) by (simp add: n isAbsolute_def)
    have sp: "split_on CHR ''/'' (normalizePath X)
        = (if isAbsolute X then [[]] else []) @ S @ (if last X = CHR ''/'' then [[]] else [])"
    proof -
      have tail_part: "split_on CHR ''/'' (?q @ ?post) = S @ (if last X = CHR ''/'' then [[]] else [])"
        using split_on_append [of "CHR ''/''" ?q "[]"] j(3) by simp
      show ?thesis
      proof (cases "isAbsolute X")
        case True
        have "split_on CHR ''/'' ([] @ CHR ''/'' # (?q @ ?post)) =
            split_on CHR ''/'' [] @ split_on CHR ''/'' (?q @ ?post)"
          by (rule split_on_append)
        with True tail_part show ?thesis by (simp add: n)
      next
        case False
        with tail_part show ?thesis by (simp add: n)
      qed
    qed
    have "pathSegments (normalizePath X) = foldl (normStep b) [] (split_on CHR ''/'' (normalizePath X))"
      by (simp add: pathSegments_def normalizeSegments_def abs b_def)
    also have "\<dots> = foldl (normStep b) [] S"
      unfolding sp by (simp add: normStep_def)
    also have "\<dots> = S" by (rule fixed)
    finally show ?thesis using abs pX by simp
  qed
qed

lemma normStep_no_dotdot_prefix:
  "seg \<noteq> ''..'' \<Longrightarrow> prefix res (normStep b res seg)"
  by (simp add: normStep_def)

lemma foldl_no_dotdot_prefix:
  "''..'' \<notin> set segs \<Longrightarrow> prefix res (foldl (normStep b) res segs)"
proof (induction segs arbitrary: res)
  case Nil
  then show ?case by simp
next
  case (Cons seg segs)
  then have "seg \<noteq> ''..''" by auto
  then have "prefix res (normStep b res seg)" by (rule normStep_no_dotdot_prefix)
  moreover from Cons have "prefix (normStep b res seg) (foldl (normStep b) (normStep b res seg) segs)"
    by simp
  ultimately show ?case by (simp add: prefix_order.order_trans)
qed

lemma isAbsolute_append: "a \<noteq> [] \<Longrightarrow> isAbsolute (a @ b) = isAbsolute a"
  by (simp add: isAbsolute_def)

lemma path_join_within_root:
  assumes nodots: "''..'' \<notin> set (split_on CHR ''/'' rp)"
    and rel: "bd = [] \<longrightarrow> \<not> isAbsolute rp"
  shows "withinRoot bd (path_join [bd, rp])"
proof -
  have root: "isAbsolute (normalizePath bd) = isAbsolute bd"
    "pathSegments (normalizePath bd) = pathSegments bd"
    using normalize_facts [of bd] by simp_all
  consider (both_empty) "bd = []" "rp = []" | (no_root) "bd = []" "rp \<noteq> []"
    | (no_rel) "bd \<noteq> []" "rp = []" | (both) "bd \<noteq> []" "rp \<noteq> []" by blast
  then show ?thesis
  proof cases
    case both_empty
    then have "path_join [bd, rp] = normalizePath bd" by (simp add: path_join_def normalizePath_def)
    then show ?thesis using normalize_facts [of "normalizePath bd"] by (simp add: withinRoot_def)
  next
    case no_rel
    then have "path_join [bd, rp] = normalizePath bd" by (simp add: path_join_def)
    then show ?thesis using normalize_facts [of "normalizePath bd"] by (simp add: withinRoot_def)
  next
    case no_root
    then have pj: "path_join [bd, rp] = normalizePath rp" by (simp add: path_join_def)
    from no_root rel have "\<not> isAbsolute rp" by simp
    moreover have "pathSegments bd = []"
      using no_root by (simp add: pathSegments_def normalizeSegments_def normStep_def)
    moreover have "\<not> isAbsolute bd" using no_root by (simp add: isAbsolute_def)
    ultimately show ?thesis
      using normalize_facts [of "normalizePath rp"] normalize_facts [of rp]
      by (simp add: withinRoot_def pj root)
  next
    case both
    let ?J = "bd @ CHR ''/'' # rp"
    from both have pj: "path_join [bd, rp] = normalizePath ?J" by (simp add: path_join_def)
    have absJ: "isAbsolute ?J = isAbsolute bd" using both by (simp add: isAbsolute_append)
    have "pathSegments ?J =
        foldl (normStep (\<not> isAbsolute bd)) (pathSegments bd) (split_on CHR ''/'' rp)"
      by (simp add: pathSegments_def normalizeSegments_def absJ split_on_append)
    then have "prefix (pathSegments bd) (pathSegments ?J)"
      using foldl_no_dotdot_prefix [OF nodots] by simp
    then show ?thesis
      using normalize_facts [of "normalizePath ?J"] normalize_facts [of ?J]
      by (simp add: withinRoot_def pj root absJ)
  qed
qed

section \<open>PathResolver: where the physical path lies\<close>

lemma compatSearch_Some:
  "fst (compatSearch fs u ds) = Some r \<Longrightarrow> \<exists>d\<in>set ds. r = Entry (path_join [d, u]) d u"
  by (induction ds) (auto simp: Let_def split: if_splits prod.splits)

lemma resolve_entry_shape:
  assumes "resolvePhotoPath env fs urlPath = Some (Entry fp bd rp)"
  shows "bd \<in> set (configuredDirs env) \<and> fp = path_join [bd, rp]
         \<and> (bd = [] \<longrightarrow> \<not> isAbsolute rp)"
proof -
  let ?dirs = "configuredDirs env"
  let ?clean = "trimSlashes urlPath"
  let ?parts = "split_on CHR ''/'' ?clean"
  let ?m = "find (\<lambda>dir. basename dir = hd ?parts) ?dirs"
  from assms have dirs: "?dirs \<noteq> []" and clean: "?clean \<noteq> []"
    by (auto simp: resolvePhotoPath_def resolveIO_def Let_def split: if_splits)
  have notabs: "\<not> isAbsolute ?clean"
    using trimSlashes_hd [OF clean] by (simp add: isAbsolute_def)
  show ?thesis
  proof (cases "?m \<noteq> None \<and> the ?m \<noteq> []")
    case True
    then obtain d where d: "?m = Some d" "d \<noteq> []" by auto
    with assms dirs clean have "bd = d" "fp = path_join [d, rp]"
      by (auto simp add: resolvePhotoPath_def resolveIO_def Let_def)
    moreover from d(1) have "d \<in> set ?dirs" using find_Some_props by fast
    ultimately show ?thesis using d(2) by simp
  next
    case False
    show ?thesis
    proof (cases "fst (compatSearch fs ?clean ?dirs)")
      case None
      with assms dirs clean False
      have "Entry fp bd rp = Entry (path_join [hd ?dirs, ?clean]) (hd ?dirs) ?clean"
        by (auto simp: resolvePhotoPath_def resolveIO_def Let_def split: prod.splits)
      with dirs notabs show ?thesis by simp
    next
      case (Some r)
      with assms dirs clean False have "r = Entry fp bd rp"
        by (auto simp: resolvePhotoPath_def resolveIO_def Let_def split: prod.splits)
      with compatSearch_Some [OF Some] notabs show ?thesis by auto
    qed
  qed
qed

text \<open>
  Claim C1, as amended. The resolver makes no containment check. Whenever it returns an
  entry, on any of its three branches, the base directory is a configured library and
  the physical path is \<^verbatim>\<open>path.join\<close> of that directory and the relative path; if no
  segment of the relative path is \<^verbatim>\<open>..\<close>, the physical path, once canonicalized, lies
  within the library's root.
\<close>

theorem resolve_within_root_unless_dotdot:
  "resolvePhotoPath env fs urlPath = Some (Entry fp bd rp) \<longrightarrow>
     bd \<in> set (configuredDirs env) \<and> fp = path_join [bd, rp]
     \<and> (''..'' \<notin> set (split_on CHR ''/'' rp) \<longrightarrow> withinRoot bd fp)"
proof (intro impI conjI)
  assume r: "resolvePhotoPath env fs urlPath = Some (Entry fp bd rp)"
  note shape = resolve_entry_shape [OF r]
  from shape show "bd \<in> set (configuredDirs env)" by blast
  from shape show fp: "fp = path_join [bd, rp]" by blast
  assume "''..'' \<notin> set (split_on CHR ''/'' rp)"
  moreover from shape have "bd = [] \<longrightarrow> \<not> isAbsolute rp" by blast
  ultimately show "withinRoot bd fp" unfolding fp by (rule path_join_within_root)
qed

theorem resolve_within_root_unless_dotdot_witness:
  "resolvePhotoPath (Some ''/data/photos,/mnt/pics'')
       \<lparr>stats = Map.empty, files = Map.empty, nodes = Map.empty\<rparr> ''/pics/2020/./a.jpg''
     = Some (Entry ''/mnt/pics/2020/a.jpg'' ''/mnt/pics'' ''2020/./a.jpg'')
   \<and> withinRoot ''/mnt/pics'' ''/mnt/pics/2020/a.jpg''"
proof -
  have r: "resolvePhotoPath (Some ''/data/photos,/mnt/pics'')
       \<lparr>stats = Map.empty, files = Map.empty, nodes = Map.empty\<rparr> ''/pics/2020/./a.jpg''
     = Some (Entry ''/mnt/pics/2020/a.jpg'' ''/mnt/pics'' ''2020/./a.jpg'')"
    by (simp add: resolve_eval)
  have n: "''..'' \<notin> set (split_on CHR ''/'' ''2020/./a.jpg'')" by simp
  from resolve_within_root_unless_dotdot [of "Some ''/data/photos,/mnt/pics''"
      "\<lparr>stats = Map.empty, files = Map.empty, nodes = Map.empty\<rparr>" "''/pics/2020/./a.jpg''"
      "''/mnt/pics/2020/a.jpg''" "''/mnt/pics''" "''2020/./a.jpg''"] r n
  show ?thesis by blast
qed

text \<open>
  Claim C1, as stated, fails on each branch: with the single library \<^verbatim>\<open>/data/photos\<close>,
  the path \<^verbatim>\<open>photos/../../etc/passwd\<close> (alias match), and the path \<^verbatim>\<open>../../etc/passwd\<close>
  both when \<^verbatim>\<open>/etc/passwd\<close> exists (compatibility search) and when nothing exists
  (default), resolve to the location \<^verbatim>\<open>/etc/passwd\<close>, not to a not-found outcome, and
  that location is not within the root.
\<close>

theorem dotdot_escapes_root:
  "resolvePhotoPath (Some ''/data/photos'')
       \<lparr>stats = Map.empty, files = Map.empty, nodes = Map.empty\<rparr> ''photos/../../etc/passwd''
     = Some (Entry ''/etc/passwd'' ''/data/photos'' ''../../etc/passwd'')
   \<and> resolvePhotoPath (Some ''/data/photos'')
       \<lparr>stats = [''/etc/passwd'' \<mapsto> \<lparr>isFile = True, mtimeMs = 0\<rparr>], files = Map.empty,
        nodes = Map.empty\<rparr> ''../../etc/passwd''
     = Some (Entry ''/etc/passwd'' ''/data/photos'' ''../../etc/passwd'')
   \<and> resolvePhotoPath (Some ''/data/photos'')
       \<lparr>stats = Map.empty, files = Map.empty, nodes = Map.empty\<rparr> ''../../etc/passwd''
     = Some (Entry ''/etc/passwd'' ''/data/photos'' ''../../etc/passwd'')
   \<and> \<not> withinRoot ''/data/photos'' ''/etc/passwd''"
  by (simp add: resolve_eval withinRoot_def pathSegments_def)

end
